theory Spec2Isabelle
  imports Complex_Main "HOL-Library.Word"
begin

section \<open>Values shared by the audio pipeline\<close>

text \<open>
  The streaming pipeline of \<^verbatim>\<open>src/utils/AudioAnalyser.ts\<close> and of the chunk handler in
  \<^verbatim>\<open>src/index.tsx\<close>. The array that \<^verbatim>\<open>decode\<close> allocates is the list of its bytes, the
  array that \<^verbatim>\<open>decodeAudioData\<close> is handed a view of a buffer, a JavaScript string the
  list of its 16-bit code units, a number that holds a time, a rate or a sample a real, and
  a count a natural number. An exception is a value \<open>Inl e\<close> of the result.
\<close>

type_synonym byte = "8 word"
type_synonym int16 = "16 word"
type_synonym code_unit = "16 word"

datatype js_error = RangeError | NotSupportedError | InvalidCharacterError

section \<open>The PCM buffer builder: \<^verbatim>\<open>decodeAudioData\<close>\<close>

text \<open>
  An \<^verbatim>\<open>AudioBuffer\<close>: \<open>frames\<close> is its \<^verbatim>\<open>length\<close> (sample frames per channel),
  \<open>channelData\<close> holds the \<^verbatim>\<open>Float32Array\<close> of every channel. Each stored sample is a
  16-bit integer over \<open>2 ^ 15\<close>, which a 32-bit float holds exactly, so the reals below
  are the stored values.
\<close>

record audio_buffer =
  numberOfChannels :: nat
  frames :: nat
  sampleRate :: real
  channelData :: "real list list"

definition duration :: "audio_buffer \<Rightarrow> real" where
  "duration b = real (frames b) / sampleRate b"

text \<open>
  What \<^verbatim>\<open>createBuffer\<close> depends on in an \<^verbatim>\<open>AudioContext\<close>: the nominal ranges of the
  channel count and of the sample rate, which the browser fixes (the Web Audio standard
  asks for at least 32 channels and the rates from 8000 to 96000).
\<close>

record context_limits =
  maxChannelCount :: nat
  minSampleRate :: real
  maxSampleRate :: real

definition supported :: "context_limits \<Rightarrow> nat \<Rightarrow> real \<Rightarrow> bool" where
  "supported ctx numChannels rate =
     (1 \<le> numChannels \<and> numChannels \<le> maxChannelCount ctx \<and>
      0 < rate \<and> minSampleRate ctx \<le> rate \<and> rate \<le> maxSampleRate ctx)"

text \<open>
  \<^verbatim>\<open>ctx.createBuffer(numberOfChannels, length, sampleRate)\<close> allocates zero-filled
  channels. It raises a \<^verbatim>\<open>NotSupportedError\<close> when an argument is zero, negative or
  outside its nominal range.
\<close>

definition createBuffer ::
  "context_limits \<Rightarrow> nat \<Rightarrow> nat \<Rightarrow> real \<Rightarrow> js_error + audio_buffer" where
  "createBuffer ctx numChannels len rate =
     (if numChannels = 0 \<or> maxChannelCount ctx < numChannels \<or> len = 0 \<or>
         rate \<le> 0 \<or> rate < minSampleRate ctx \<or> maxSampleRate ctx < rate
      then Inl NotSupportedError
      else Inr \<lparr>numberOfChannels = numChannels, frames = len, sampleRate = rate,
                channelData = replicate numChannels (replicate len 0)\<rparr>)"

text \<open>
  A \<^verbatim>\<open>Uint8Array\<close> is a view of an \<^verbatim>\<open>ArrayBuffer\<close>: \<open>arrayBuffer\<close> holds the bytes of
  \<^verbatim>\<open>data.buffer\<close>, \<open>byteOffset\<close> is \<^verbatim>\<open>data.byteOffset\<close> and \<open>viewLength\<close> is
  \<^verbatim>\<open>data.length\<close>. A view lies inside its buffer (\<open>validView\<close>); its elements are
  \<open>viewBytes\<close>. \<open>freshArray\<close> is the array that \<^verbatim>\<open>new Uint8Array(len)\<close> allocates and
  the copy loop of \<^verbatim>\<open>decode\<close> fills: a view of a whole buffer.
\<close>

record uint8_array =
  arrayBuffer :: "byte list"
  byteOffset :: nat
  viewLength :: nat

definition validView :: "uint8_array \<Rightarrow> bool" where
  "validView a = (byteOffset a + viewLength a \<le> length (arrayBuffer a))"

definition viewBytes :: "uint8_array \<Rightarrow> byte list" where
  "viewBytes a = take (viewLength a) (drop (byteOffset a) (arrayBuffer a))"

definition freshArray :: "byte list \<Rightarrow> uint8_array" where
  "freshArray bytes = \<lparr>arrayBuffer = bytes, byteOffset = 0, viewLength = length bytes\<rparr>"

text \<open>
  \<^verbatim>\<open>new Int16Array(buffer, byteOffset, length)\<close>: a view of \<open>len\<close> little-endian 16-bit
  elements starting at the byte offset. The constructor raises a \<^verbatim>\<open>RangeError\<close> when the
  offset is odd or the view would end past the buffer.
\<close>

definition int16_at :: "byte list \<Rightarrow> nat \<Rightarrow> int16" where
  "int16_at bs k = word_cat (bs ! (k + 1)) (bs ! k)"

definition newInt16Array :: "byte list \<Rightarrow> nat \<Rightarrow> nat \<Rightarrow> js_error + int16 list" where
  "newInt16Array bytes offset len =
     (if offset mod 2 \<noteq> 0 then Inl RangeError
      else if length bytes < offset + 2 * len then Inl RangeError
      else Inr (map (\<lambda>k. int16_at bytes (offset + 2 * k)) [0..<len]))"

definition bytesPerSample :: nat where
  "bytesPerSample = 2"

text \<open>
  The inner loop of \<^verbatim>\<open>decodeAudioData\<close> (\<^verbatim>\<open>for (let i = 0; i < numFrames; i++)\<close>), from
  frame \<open>i\<close> on, writing into the channel's sample array.
\<close>

function fillFrames ::
  "int16 list \<Rightarrow> nat \<Rightarrow> nat \<Rightarrow> nat \<Rightarrow> nat \<Rightarrow> real list \<Rightarrow> real list" where
  "fillFrames dataInt16 numChannels numFrames channel i chanData =
     (if i < numFrames then
        (let sampleIndex = i * numChannels + channel in
         fillFrames dataInt16 numChannels numFrames channel (Suc i)
           (if sampleIndex < length dataInt16
            then chanData[i := real_of_int (sint (dataInt16 ! sampleIndex)) / 32768]
            else chanData[i := 0]))
      else chanData)"
  by pat_completeness auto
termination
  by (relation "measure (\<lambda>(d, c, n, ch, i, cd). n - i)") auto

text \<open>The outer loop (\<^verbatim>\<open>for (let channel = 0; channel < numChannels; channel++)\<close>).\<close>

function fillChannels ::
  "int16 list \<Rightarrow> nat \<Rightarrow> nat \<Rightarrow> nat \<Rightarrow> audio_buffer \<Rightarrow> audio_buffer" where
  "fillChannels dataInt16 numChannels numFrames channel buffer =
     (if channel < numChannels then
        fillChannels dataInt16 numChannels numFrames (Suc channel)
          (buffer\<lparr>channelData := (channelData buffer)
             [channel := fillFrames dataInt16 numChannels numFrames channel 0
                           (channelData buffer ! channel)]\<rparr>)
      else buffer)"
  by pat_completeness auto
termination
  by (relation "measure (\<lambda>(d, c, n, ch, b). c - ch)") auto

text \<open>
  \<^verbatim>\<open>decodeAudioData(data, ctx, sampleRate, numChannels)\<close>. The length handed to the
  \<^verbatim>\<open>Int16Array\<close> constructor, \<^verbatim>\<open>data.length / 2\<close>, is truncated to an integer by the
  constructor. An exception of \<^verbatim>\<open>createBuffer\<close> or of the constructor leaves the function
  (the promise is rejected). The warnings written to the console are left out.
\<close>

definition decodeAudioData ::
  "uint8_array \<Rightarrow> context_limits \<Rightarrow> real \<Rightarrow> nat \<Rightarrow> js_error + audio_buffer" where
  "decodeAudioData data ctx rate numChannels =
     (if viewLength data = 0 then createBuffer ctx numChannels 1 rate
      else
        let numFrames = viewLength data div (bytesPerSample * numChannels) in
        if numFrames = 0 then createBuffer ctx numChannels 1 rate
        else
          (case createBuffer ctx numChannels numFrames rate of
             Inl e \<Rightarrow> Inl e
           | Inr buffer \<Rightarrow>
               (case newInt16Array (arrayBuffer data) (byteOffset data)
                       (viewLength data div bytesPerSample) of
                  Inl e \<Rightarrow> Inl e
                | Inr dataInt16 \<Rightarrow>
                    Inr (fillChannels dataInt16 numChannels numFrames 0 buffer))))"

text \<open>
  The closed form of the filled channels, used to state what the two loops compute: sample
  \<open>i\<close> of channel \<open>ch\<close> is the little-endian 16-bit value at byte
  \<open>off + 2 * (i * c + ch)\<close> of the buffer and the next, over \<open>2 ^ 15\<close>.
\<close>

definition pcmChannels :: "byte list \<Rightarrow> nat \<Rightarrow> nat \<Rightarrow> nat \<Rightarrow> real list list" where
  "pcmChannels bytes off c n =
     map (\<lambda>ch. map (\<lambda>i. real_of_int (sint (int16_at bytes (off + 2 * (i * c + ch)))) / 32768)
                [0..<n])
       [0..<c]"

section \<open>The byte decoder: \<^verbatim>\<open>decode\<close> and \<^verbatim>\<open>encode\<close>\<close>

text \<open>
  The browser's \<^verbatim>\<open>atob\<close> and \<^verbatim>\<open>btoa\<close>, after the forgiving-base64 algorithms of the
  WHATWG Infra standard. A base64 digit is a value below 64.
\<close>

definition isAsciiWhitespace :: "code_unit \<Rightarrow> bool" where
  "isAsciiWhitespace c = (c = 9 \<or> c = 10 \<or> c = 12 \<or> c = 13 \<or> c = 32)"

definition base64Index :: "code_unit \<Rightarrow> nat option" where
  "base64Index c =
     (let n = unat c in
      if 65 \<le> n \<and> n \<le> 90 then Some (n - 65)
      else if 97 \<le> n \<and> n \<le> 122 then Some (n - 71)
      else if 48 \<le> n \<and> n \<le> 57 then Some (n + 4)
      else if n = 43 then Some 62
      else if n = 47 then Some 63
      else None)"

definition base64Char :: "nat \<Rightarrow> code_unit" where
  "base64Char n =
     (if n < 26 then of_nat (n + 65)
      else if n < 52 then of_nat (n + 71)
      else if n < 62 then of_nat (n - 4)
      else if n = 62 then 43
      else 47)"

text \<open>Step 2 of the decoder: one or two trailing \<^verbatim>\<open>=\<close> (code 61) are removed.\<close>

definition stripPadding :: "code_unit list \<Rightarrow> code_unit list" where
  "stripPadding s =
     (if 2 \<le> length s \<and> last s = 61 \<and> last (butlast s) = 61 then butlast (butlast s)
      else if s \<noteq> [] \<and> last s = 61 then butlast s
      else s)"

fun sextets :: "code_unit list \<Rightarrow> nat list option" where
  "sextets [] = Some []"
| "sextets (c # cs) =
     (case base64Index c of
        None \<Rightarrow> None
      | Some v \<Rightarrow> (case sextets cs of None \<Rightarrow> None | Some vs \<Rightarrow> Some (v # vs)))"

text \<open>
  Steps 5 to 8: every four digits give three bytes; a rest of three digits gives two bytes
  (the last two bits dropped) and a rest of two digits one byte (the last four bits
  dropped). A rest of one digit is excluded before this function is reached.
\<close>

fun decodeSextets :: "nat list \<Rightarrow> byte list" where
  "decodeSextets (a # b # c # d # rest) =
     (let n = ((a * 64 + b) * 64 + c) * 64 + d
      in of_nat (n div 65536) # of_nat (n div 256) # of_nat n # decodeSextets rest)"
| "decodeSextets [a, b, c] =
     (let n = ((a * 64 + b) * 64 + c) div 4 in [of_nat (n div 256), of_nat n])"
| "decodeSextets [a, b] = [of_nat ((a * 64 + b) div 16)]"
| "decodeSextets [a] = []"
| "decodeSextets [] = []"

definition atob :: "code_unit list \<Rightarrow> js_error + code_unit list" where
  "atob s =
     (let stripped = filter (\<lambda>c. \<not> isAsciiWhitespace c) s;
          data = (if length stripped mod 4 = 0 then stripPadding stripped else stripped)
      in if length data mod 4 = 1 then Inl InvalidCharacterError
         else (case sextets data of
                 None \<Rightarrow> Inl InvalidCharacterError
               | Some vs \<Rightarrow> Inr (map ucast (decodeSextets vs))))"

fun base64Encode :: "byte list \<Rightarrow> code_unit list" where
  "base64Encode (a # b # c # rest) =
     (let n = (unat a * 256 + unat b) * 256 + unat c
      in base64Char (n div 262144) # base64Char (n div 4096 mod 64) #
         base64Char (n div 64 mod 64) # base64Char (n mod 64) # base64Encode rest)"
| "base64Encode [a, b] =
     (let n = (unat a * 256 + unat b) * 4
      in [base64Char (n div 4096), base64Char (n div 64 mod 64), base64Char (n mod 64), 61])"
| "base64Encode [a] =
     (let n = unat a * 16 in [base64Char (n div 64), base64Char (n mod 64), 61, 61])"
| "base64Encode [] = []"

definition btoa :: "code_unit list \<Rightarrow> js_error + code_unit list" where
  "btoa s =
     (if \<exists>c \<in> set s. 255 < unat c then Inl InvalidCharacterError
      else Inr (base64Encode (map ucast s)))"

text \<open>
  What \<^verbatim>\<open>decode\<close> can be handed at run time: the TypeScript type says \<^verbatim>\<open>string\<close>, the
  function tests \<^verbatim>\<open>typeof base64 !== 'string' || !base64\<close> first.
\<close>

datatype js_value =
    JSUndefined
  | JSNull
  | JSBoolean bool
  | JSNumber real
  | JSString "code_unit list"
  | JSObject

text \<open>
  \<^verbatim>\<open>decode(base64)\<close>. The \<^verbatim>\<open>try\<close> block holds the call of \<^verbatim>\<open>atob\<close> and the copy loop
  \<^verbatim>\<open>bytes[i] = binaryString.charCodeAt(i)\<close> (a store into a \<^verbatim>\<open>Uint8Array\<close> keeps the low
  eight bits); its \<^verbatim>\<open>catch\<close> returns an empty array.
\<close>

definition decode :: "js_value \<Rightarrow> js_error + byte list" where
  "decode base64 =
     (case base64 of
        JSString s \<Rightarrow>
          (if s = [] then Inr []
           else (case atob s of
                   Inl e \<Rightarrow> Inr []
                 | Inr binaryString \<Rightarrow> Inr (map ucast binaryString)))
      | _ \<Rightarrow> Inr [])"

text \<open>
  \<^verbatim>\<open>encode(bytes)\<close>: the loop appends \<^verbatim>\<open>String.fromCharCode(bytes[i])\<close> to the binary
  string, which \<^verbatim>\<open>btoa\<close> then encodes.
\<close>

definition encode :: "byte list \<Rightarrow> js_error + code_unit list" where
  "encode bytes = btoa (map ucast bytes)"


text \<open>
  For the round trip: the digits that \<open>base64Encode\<close> writes before the padding, and the
  padding itself.
\<close>

fun encDigits :: "byte list \<Rightarrow> nat list" where
  "encDigits (a # b # c # rest) =
     (let n = (unat a * 256 + unat b) * 256 + unat c
      in n div 262144 # n div 4096 mod 64 # n div 64 mod 64 # n mod 64 # encDigits rest)"
| "encDigits [a, b] =
     (let n = (unat a * 256 + unat b) * 4 in [n div 4096, n div 64 mod 64, n mod 64])"
| "encDigits [a] = (let n = unat a * 16 in [n div 64, n mod 64])"
| "encDigits [] = []"

fun encPadding :: "byte list \<Rightarrow> code_unit list" where
  "encPadding (a # b # c # rest) = encPadding rest"
| "encPadding [a, b] = [61]"
| "encPadding [a] = [61, 61]"
| "encPadding [] = []"


section \<open>The playback scheduler and the chunk handler\<close>

text \<open>
  The fields of the \<^verbatim>\<open>PromptDjMidi\<close> element that the audio pipeline reads and writes,
  with the state of its audio context and gain node, and a record of the effects on the
  outside: the buffer sources created, the calls of \<^verbatim>\<open>source.start\<close>, the timers set, the
  toasts shown and the calls made on the session. \<open>contextLimits\<close> holds the nominal
  ranges of the element's audio context.
\<close>

datatype PlaybackState = Stopped | Playing | Loading | Paused

datatype AudioContextState = Suspended | Running | Closed

datatype automation_event = SetValueAtTime real real | LinearRampToValueAtTime real real

record gain_param =
  gainValue :: real
  events :: "automation_event list"

text \<open>
  One call \<^verbatim>\<open>source.start(when)\<close>: \<open>clock\<close> is \<^verbatim>\<open>audioContext.currentTime\<close> at the call,
  \<open>startTime\<close> the argument, \<open>played\<close> the buffer of the source.
\<close>

record source_start =
  clock :: real
  startTime :: real
  played :: audio_buffer

datatype session_call = SessionStop

record PromptDjMidi =
  playbackState :: PlaybackState
  nextStartTime :: real
  session :: "nat option"
  connectionError :: bool
  sessionSampleRate :: real
  sessionNumChannels :: nat
  contextState :: AudioContextState
  gain :: gain_param
  sourcesCreated :: nat
  started :: "source_start list"
  timeouts :: "real list"
  toasts :: "string list"
  sessionCalls :: "session_call list"
  contextLimits :: context_limits

definition bufferTime :: real where
  "bufferTime = 1"

text \<open>
  The element as its field initialisers leave it, with a context that has not been resumed
  yet, the gain at its default and the least nominal ranges that the standard allows.
\<close>

definition initialState :: PromptDjMidi where
  "initialState =
     \<lparr>playbackState = Stopped, nextStartTime = 0, session = None, connectionError = True,
      sessionSampleRate = 48000, sessionNumChannels = 2, contextState = Suspended,
      gain = \<lparr>gainValue = 1, events = []\<rparr>, sourcesCreated = 0, started = [],
      timeouts = [], toasts = [], sessionCalls = [],
      contextLimits = \<lparr>maxChannelCount = 32, minSampleRate = 8000, maxSampleRate = 96000\<rparr>\<rparr>"

text \<open>
  The callback handed to \<^verbatim>\<open>setTimeout\<close> by the first chunk, run when the warm-up has
  elapsed.
\<close>

definition warmupElapsed :: "PromptDjMidi \<Rightarrow> PromptDjMidi" where
  "warmupElapsed p = (if playbackState p = Loading then p\<lparr>playbackState := Playing\<rparr> else p)"

text \<open>
  Lines 703 to 724 of the handler, for a built buffer: \<open>now\<close> is
  \<^verbatim>\<open>audioContext.currentTime\<close>, which does not change while the synchronous part of the
  handler runs. A suspended context is resumed first, and the resumption succeeds. One
  call of the handler is one step: nothing else runs between its lines.
\<close>

definition scheduleBuffer :: "real \<Rightarrow> audio_buffer \<Rightarrow> PromptDjMidi \<Rightarrow> PromptDjMidi" where
  "scheduleBuffer now audioBuffer p =
     (let p1 = p\<lparr>sourcesCreated := Suc (sourcesCreated p)\<rparr>;
          p2 = (if contextState p1 = Suspended then p1\<lparr>contextState := Running\<rparr> else p1);
          p3 = (if nextStartTime p2 = 0
                then p2\<lparr>nextStartTime := now + bufferTime,
                        timeouts := timeouts p2 @ [bufferTime * 1000]\<rparr>
                else p2);
          p4 = (if nextStartTime p3 < now
                then p3\<lparr>playbackState := Loading, nextStartTime := now + 0.1\<rparr>
                else p3);
          p5 = p4\<lparr>started := started p4 @
                  [\<lparr>clock = now, startTime = nextStartTime p4, played = audioBuffer\<rparr>]\<rparr>
      in p5\<lparr>nextStartTime := nextStartTime p5 + duration audioBuffer\<rparr>)"

text \<open>
  The cursor as the first-chunk branch of line 711 leaves it, and the test of line 718 as a
  call of \<open>scheduleBuffer\<close> meets it.
\<close>

definition firstCursor :: "real \<Rightarrow> PromptDjMidi \<Rightarrow> real" where
  "firstCursor now p = (if nextStartTime p = 0 then now + bufferTime else nextStartTime p)"

definition underrun :: "real \<Rightarrow> PromptDjMidi \<Rightarrow> bool" where
  "underrun now p = (firstCursor now p < now)"

text \<open>The calls of \<^verbatim>\<open>source.start\<close> made on the way from state \<open>p\<close> to state \<open>q\<close>.\<close>

definition newStarts :: "PromptDjMidi \<Rightarrow> PromptDjMidi \<Rightarrow> source_start list" where
  "newStarts p q = drop (length (started p)) (started q)"

text \<open>
  The audio part of \<^verbatim>\<open>onmessage\<close> (lines 675 to 735). \<open>audioChunks\<close> is
  \<^verbatim>\<open>e.serverContent.audioChunks\<close>, empty when the message has none; a chunk is \<open>None\<close>
  when it is \<^verbatim>\<open>undefined\<close> or \<^verbatim>\<open>null\<close>, else \<open>Some d\<close> with \<open>d\<close> its \<^verbatim>\<open>data\<close> property.
  An exception inside the \<^verbatim>\<open>try\<close> block ends in the toast of the \<^verbatim>\<open>catch\<close>.
\<close>

definition handleAudioChunks ::
  "real \<Rightarrow> js_value option list \<Rightarrow> PromptDjMidi \<Rightarrow> PromptDjMidi" where
  "handleAudioChunks now audioChunks p =
     (case audioChunks of
        [] \<Rightarrow> p
      | firstChunk # _ \<Rightarrow>
          (case firstChunk of
             Some (JSString chunkData) \<Rightarrow>
               if chunkData = [] then p
               else if playbackState p = Paused \<or> playbackState p = Stopped then p
               else
                 (case decode (JSString chunkData) of
                    Inl e \<Rightarrow>
                      p\<lparr>toasts := toasts p @ [''Error playing audio. Playback might be affected.'']\<rparr>
                  | Inr decodedBytes \<Rightarrow>
                      if length decodedBytes = 0 then p
                      else
                        (case decodeAudioData (freshArray decodedBytes) (contextLimits p)
                                (sessionSampleRate p) (sessionNumChannels p) of
                           Inl e \<Rightarrow>
                             p\<lparr>toasts := toasts p @
                                 [''Error playing audio. Playback might be affected.'']\<rparr>
                         | Inr audioBuffer \<Rightarrow>
                             if frames audioBuffer \<le> 1 \<and>
                                duration audioBuffer \<le> 1 / sessionSampleRate p + 0.0001
                             then p
                             else scheduleBuffer now audioBuffer p))
           | _ \<Rightarrow> p))"

text \<open>Buffers scheduled one after the other, each with the clock at its call.\<close>

fun scheduleAll :: "(real \<times> audio_buffer) list \<Rightarrow> PromptDjMidi \<Rightarrow> PromptDjMidi" where
  "scheduleAll [] p = p"
| "scheduleAll ((now, b) # rest) p = scheduleAll rest (scheduleBuffer now b p)"

fun noUnderrun :: "(real \<times> audio_buffer) list \<Rightarrow> PromptDjMidi \<Rightarrow> bool" where
  "noUnderrun [] p = True"
| "noUnderrun ((now, b) # rest) p =
     (\<not> underrun now p \<and> noUnderrun rest (scheduleBuffer now b p))"

text \<open>The running sums \<open>t, t + d1, t + d1 + d2, ...\<close> of a list of durations.\<close>

fun cumulative :: "real \<Rightarrow> real list \<Rightarrow> real list" where
  "cumulative t [] = []"
| "cumulative t (d # ds) = t # cumulative (t + d) ds"

section \<open>Stopping: \<^verbatim>\<open>stop\<close> and \<^verbatim>\<open>resetAudioPipelineToStopped\<close>\<close>

text \<open>
  The two automation methods of the gain parameter; each raises a \<^verbatim>\<open>RangeError\<close> for a
  negative time.
\<close>

definition setValueAtTime :: "real \<Rightarrow> real \<Rightarrow> gain_param \<Rightarrow> js_error + gain_param" where
  "setValueAtTime v t g =
     (if t < 0 then Inl RangeError else Inr (g\<lparr>events := events g @ [SetValueAtTime v t]\<rparr>))"

definition linearRampToValueAtTime ::
  "real \<Rightarrow> real \<Rightarrow> gain_param \<Rightarrow> js_error + gain_param" where
  "linearRampToValueAtTime v t g =
     (if t < 0 then Inl RangeError
      else Inr (g\<lparr>events := events g @ [LinearRampToValueAtTime v t]\<rparr>))"

definition resetAudioPipelineToStopped :: "real \<Rightarrow> PromptDjMidi \<Rightarrow> PromptDjMidi" where
  "resetAudioPipelineToStopped now p =
     (let p1 =
        (if contextState p = Running then
           (case setValueAtTime (gainValue (gain p)) now (gain p) of
              Inl e \<Rightarrow> p
            | Inr g1 \<Rightarrow>
                (case linearRampToValueAtTime 0 (now + 0.1) g1 of
                   Inl e \<Rightarrow> p\<lparr>gain := g1\<rparr>
                 | Inr g2 \<Rightarrow> p\<lparr>gain := g2\<rparr>))
         else p\<lparr>gain := (gain p)\<lparr>gainValue := 0\<rparr>\<rparr>)
      in p1\<lparr>nextStartTime := 0\<rparr>)"

text \<open>
  \<^verbatim>\<open>stop()\<close>. The call \<^verbatim>\<open>this.session.stop()\<close> is made when a session is held; whether it
  returns or throws is the session's answer \<open>answer\<close>, and both branches of the \<^verbatim>\<open>catch\<close>
  only write to the console. The request to redraw the play button is left out.
\<close>

datatype call_outcome = Returns | Throws string

definition stop :: "call_outcome \<Rightarrow> real \<Rightarrow> PromptDjMidi \<Rightarrow> PromptDjMidi" where
  "stop answer now p =
     (let p1 = (case session p of
                  Some h \<Rightarrow>
                    (case answer of
                       Returns \<Rightarrow> p\<lparr>sessionCalls := sessionCalls p @ [SessionStop]\<rparr>
                     | Throws msg \<Rightarrow> p)
                | None \<Rightarrow> p);
          p2 = p1\<lparr>playbackState := Stopped\<rparr>
      in resetAudioPipelineToStopped now p2)"

section \<open>Stored prompts: \<^verbatim>\<open>getInitialPrompts\<close>\<close>

datatype source_type = Knob | Button

record prompt =
  promptId :: string
  promptText :: string
  weight :: real
  cc :: int
  color :: string
  categoryKey :: "string option"
  sourceType :: source_type

text \<open>
  A record read back from local storage. A property missing from the stored object is
  \<open>None\<close> (\<^verbatim>\<open>undefined\<close>); \<open>storedCategoryKey\<close> may also hold \<^verbatim>\<open>null\<close>, which is
  \<open>Some None\<close>. \<open>storedSourceType\<close> is \<open>None\<close> for every value that the test
  \<^verbatim>\<open>storedPrompt.sourceType || ...\<close> takes for false.
\<close>

record stored_prompt =
  storedId :: string
  storedText :: "string option"
  storedWeight :: "real option"
  storedCc :: "int option"
  storedColor :: "string option"
  storedCategoryKey :: "string option option"
  storedSourceType :: "source_type option"

text \<open>
  What \<^verbatim>\<open>localStorage.getItem('prompts')\<close> and \<^verbatim>\<open>JSON.parse\<close> give: no item (or an empty
  string), a string that does not parse, a parsed value that is not an array, or an array
  of records. An array with an element that is no object ends in the \<^verbatim>\<open>catch\<close> block as
  a string that does not parse does.
\<close>

datatype stored_item = NoItem | ParseFailure | NotAnArray | PromptArray "stored_prompt list"

definition BPM_PROMPT_ID :: string where
  "BPM_PROMPT_ID = ''internal-bpm-prompt''"

text \<open>
  \<^verbatim>\<open>new Map(storedPromptsArray.map(p => [p.promptId, p]))\<close> followed by the deletion of the
  BPM prompt: of two records with one id the later stays.
\<close>

definition storedPromptsMap :: "stored_prompt list \<Rightarrow> (string \<rightharpoonup> stored_prompt)" where
  "storedPromptsMap arr =
     (foldl (\<lambda>m p. m(storedId p \<mapsto> p)) Map.empty arr)(BPM_PROMPT_ID := None)"

text \<open>The object literal of lines 1566 to 1574.\<close>

definition mergePrompt :: "prompt \<Rightarrow> stored_prompt \<Rightarrow> prompt" where
  "mergePrompt defaultPrompt storedPrompt =
     \<lparr>promptId = promptId defaultPrompt,
      promptText = (case storedText storedPrompt of
                      Some t \<Rightarrow> t | None \<Rightarrow> promptText defaultPrompt),
      weight = (case storedWeight storedPrompt of Some w \<Rightarrow> w | None \<Rightarrow> weight defaultPrompt),
      cc = (case storedCc storedPrompt of Some n \<Rightarrow> n | None \<Rightarrow> cc defaultPrompt),
      color = color defaultPrompt,
      categoryKey = (case storedCategoryKey storedPrompt of
                       Some k \<Rightarrow> k | None \<Rightarrow> categoryKey defaultPrompt),
      sourceType = (case storedSourceType storedPrompt of
                      Some t \<Rightarrow> t | None \<Rightarrow> sourceType defaultPrompt)\<rparr>"

text \<open>
  \<^verbatim>\<open>getInitialPrompts\<close>, given the stored item and the map built by
  \<^verbatim>\<open>buildDefaultPrompts\<close> (which draws random texts and weights), as the list of its
  entries in insertion order.
\<close>

definition getInitialPrompts ::
  "stored_item \<Rightarrow> (string \<times> prompt) list \<Rightarrow> (string \<times> prompt) list" where
  "getInitialPrompts item defaultPromptsMap =
     (case item of
        PromptArray storedPromptsArray \<Rightarrow>
          map (\<lambda>(pid, defaultPrompt).
                 (case storedPromptsMap storedPromptsArray pid of
                    Some storedPrompt \<Rightarrow> (pid, mergePrompt defaultPrompt storedPrompt)
                  | None \<Rightarrow> (pid, defaultPrompt)))
            defaultPromptsMap
      | _ \<Rightarrow> defaultPromptsMap)"

section \<open>Properties of the PCM buffer builder\<close>

declare fillFrames.simps [simp del]
declare fillChannels.simps [simp del]

lemma fillFrames_length:
  "length (fillFrames d c n ch i cd) = length cd"
  by (induction d c n ch i cd rule: fillFrames.induct)
     (subst fillFrames.simps, simp add: Let_def)

lemma fillFrames_nth:
  "j < length cd \<Longrightarrow>
   fillFrames d c n ch i cd ! j =
     (if i \<le> j \<and> j < n
      then (if j * c + ch < length d then real_of_int (sint (d ! (j * c + ch))) / 32768 else 0)
      else cd ! j)"
proof (induction d c n ch i cd rule: fillFrames.induct)
  case (1 d c n ch i cd)
  show ?case
  proof (cases "i < n")
    case False
    then show ?thesis by (subst fillFrames.simps) simp
  next
    case True
    let ?cd' = "if i * c + ch < length d
            then cd[i := real_of_int (sint (d ! (i * c + ch))) / 32768]
            else cd[i := 0]"
    have step: "fillFrames d c n ch i cd = fillFrames d c n ch (Suc i) ?cd'"
      using True by (subst fillFrames.simps) (simp add: Let_def)
    have len: "j < length ?cd'" using "1.prems" by simp
    have ih: "fillFrames d c n ch (Suc i) ?cd' ! j =
       (if Suc i \<le> j \<and> j < n
        then (if j * c + ch < length d then real_of_int (sint (d ! (j * c + ch))) / 32768 else 0)
        else ?cd' ! j)"
      using "1.IH"[OF True refl len] .
    show ?thesis
    proof (cases "j = i")
      case True
      with \<open>i < n\<close> "1.prems" show ?thesis unfolding step ih by simp
    next
      case False
      then show ?thesis unfolding step ih using "1.prems" by auto
    qed
  qed
qed

lemma fillChannels_shape:
  "numberOfChannels (fillChannels d c n ch b) = numberOfChannels b \<and>
   frames (fillChannels d c n ch b) = frames b \<and>
   sampleRate (fillChannels d c n ch b) = sampleRate b \<and>
   length (channelData (fillChannels d c n ch b)) = length (channelData b)"
  by (induction d c n ch b rule: fillChannels.induct)
     (subst (1 2 3 4) fillChannels.simps, simp)

lemma fillChannels_nth:
  "k < length (channelData b) \<Longrightarrow>
   channelData (fillChannels d c n ch b) ! k =
     (if ch \<le> k \<and> k < c then fillFrames d c n k 0 (channelData b ! k)
      else channelData b ! k)"
proof (induction d c n ch b rule: fillChannels.induct)
  case (1 d c n ch b)
  show ?case
  proof (cases "ch < c")
    case False
    then show ?thesis by (subst fillChannels.simps) auto
  next
    case True
    let ?b' = "b\<lparr>channelData := (channelData b)
             [ch := fillFrames d c n ch 0 (channelData b ! ch)]\<rparr>"
    have step: "fillChannels d c n ch b = fillChannels d c n (Suc ch) ?b'"
      using True by (subst fillChannels.simps) simp
    have len: "k < length (channelData ?b')" using "1.prems" by simp
    note ih = "1.IH"[OF True len]
    show ?thesis
    proof (cases "k = ch")
      case True
      with \<open>ch < c\<close> "1.prems" show ?thesis unfolding step ih by simp
    next
      case False
      then show ?thesis unfolding step ih using "1.prems" by auto
    qed
  qed
qed


lemma index_in_frame:
  fixes i c ch n :: nat
  assumes "i < n" "ch < c"
  shows "i * c + ch < n * c"
proof -
  have "i * c + ch < i * c + c" using assms by simp
  also have "\<dots> = Suc i * c" by simp
  also have "\<dots> \<le> n * c" using assms by (intro mult_le_mono1) simp
  finally show ?thesis .
qed

lemma frames_fit_view:
  fixes L c :: nat
  shows "(L div (2 * c)) * c \<le> L div 2"
proof -
  have "(L div (2 * c)) * c = (L div 2) div c * c"
    by (simp add: div_mult2_eq)
  also have "\<dots> \<le> L div 2" by simp
  finally show ?thesis .
qed

lemma newInt16Array_Inr:
  assumes "newInt16Array bytes off len = Inr d"
  shows "d = map (\<lambda>k. int16_at bytes (off + 2 * k)) [0..<len]"
    and "even off" and "off + 2 * len \<le> length bytes"
  using assms by (auto simp: newInt16Array_def split: if_splits)

lemma newInt16Array_aligned:
  assumes "even off" and "off + 2 * len \<le> length bytes"
  shows "newInt16Array bytes off len = Inr (map (\<lambda>k. int16_at bytes (off + 2 * k)) [0..<len])"
  using assms by (auto simp: newInt16Array_def)

lemma newInt16Array_odd: "odd off \<Longrightarrow> newInt16Array bytes off len = Inl RangeError"
  by (simp add: newInt16Array_def odd_iff_mod_2_eq_one)

lemma createBuffer_supported:
  assumes "supported ctx c r" and "0 < n"
  shows "createBuffer ctx c n r =
     Inr \<lparr>numberOfChannels = c, frames = n, sampleRate = r,
          channelData = replicate c (replicate n 0)\<rparr>"
  using assms by (auto simp: createBuffer_def supported_def)

lemma createBuffer_unsupported:
  "\<not> supported ctx c r \<Longrightarrow> createBuffer ctx c n r = Inl NotSupportedError"
  by (auto simp: createBuffer_def supported_def)

lemma createBuffer_Inr:
  assumes "createBuffer ctx c n r = Inr b"
  shows "supported ctx c r" and "0 < n"
    and "b = \<lparr>numberOfChannels = c, frames = n, sampleRate = r,
              channelData = replicate c (replicate n 0)\<rparr>"
  using assms by (auto simp: createBuffer_def supported_def split: if_splits)

lemma fillChannels_closed:
  assumes view: "d = map (\<lambda>k. int16_at bytes (off + 2 * k)) [0..<m]" and fit: "n * c \<le> m"
    and b: "b = \<lparr>numberOfChannels = c, frames = n, sampleRate = r,
                 channelData = replicate c (replicate n 0)\<rparr>"
  shows "fillChannels d c n 0 b =
     \<lparr>numberOfChannels = c, frames = n, sampleRate = r,
      channelData = pcmChannels bytes off c n\<rparr>"
proof -
  let ?b' = "fillChannels d c n 0 b"
  have shape: "numberOfChannels ?b' = c" "frames ?b' = n" "sampleRate ?b' = r"
    "length (channelData ?b') = c"
    using fillChannels_shape[of d c n 0 b] by (simp_all add: b)
  have "channelData ?b' = pcmChannels bytes off c n"
  proof (rule nth_equalityI)
    show "length (channelData ?b') = length (pcmChannels bytes off c n)"
      by (simp add: shape pcmChannels_def)
  next
    fix k assume "k < length (channelData ?b')"
    then have k: "k < c" by (simp add: shape)
    then have row: "channelData ?b' ! k = fillFrames d c n k 0 (replicate n 0)"
      using fillChannels_nth[of k b d c n 0] by (simp add: b)
    show "channelData ?b' ! k = pcmChannels bytes off c n ! k"
    proof (rule nth_equalityI)
      show "length (channelData ?b' ! k) = length (pcmChannels bytes off c n ! k)"
        using k by (simp add: row fillFrames_length pcmChannels_def)
    next
      fix i assume "i < length (channelData ?b' ! k)"
      then have i: "i < n" by (simp add: row fillFrames_length)
      have "i * c + k < n * c" using i k by (rule index_in_frame)
      then have inb: "i * c + k < m" using fit by simp
      then have "fillFrames d c n k 0 (replicate n 0) ! i =
          real_of_int (sint (int16_at bytes (off + 2 * (i * c + k)))) / 32768"
        using i by (simp add: fillFrames_nth view)
      then show "channelData ?b' ! k ! i = pcmChannels bytes off c n ! k ! i"
        using i k by (simp add: row pcmChannels_def)
    qed
  qed
  then show ?thesis using shape by simp
qed

lemma div_pos_nonzero: "0 < (a::nat) div b \<Longrightarrow> a \<noteq> 0"
  by (cases "a = 0") simp_all

lemma view_holds_samples:
  assumes "validView data"
  shows "byteOffset data + 2 * (viewLength data div 2) \<le> length (arrayBuffer data)"
proof -
  have "2 * (viewLength data div 2) \<le> viewLength data" by simp
  then show ?thesis using assms by (simp add: validView_def)
qed

lemma int16_at_view:
  assumes "validView a" and "k + 1 < viewLength a"
  shows "int16_at (viewBytes a) k = int16_at (arrayBuffer a) (byteOffset a + k)"
proof -
  have "byteOffset a \<le> length (arrayBuffer a)" using assms(1) by (simp add: validView_def)
  then show ?thesis using assms(2) by (simp add: int16_at_def viewBytes_def add.assoc)
qed

lemma decodeAudioData_frames:
  assumes sup: "supported ctx c r" and even: "even (byteOffset data)"
    and valid: "validView data" and pos: "0 < viewLength data div (2 * c)"
  shows "decodeAudioData data ctx r c =
     Inr \<lparr>numberOfChannels = c, frames = viewLength data div (2 * c), sampleRate = r,
          channelData = pcmChannels (arrayBuffer data) (byteOffset data) c
                          (viewLength data div (2 * c))\<rparr>"
proof -
  let ?n = "viewLength data div (2 * c)"
  let ?m = "viewLength data div 2"
  have ne: "viewLength data \<noteq> 0" using pos by (rule div_pos_nonzero)
  have fit: "?n * c \<le> ?m" by (rule frames_fit_view)
  have alloc: "createBuffer ctx c ?n r =
      Inr \<lparr>numberOfChannels = c, frames = ?n, sampleRate = r,
           channelData = replicate c (replicate ?n 0)\<rparr>"
    by (rule createBuffer_supported[OF sup pos])
  have view: "newInt16Array (arrayBuffer data) (byteOffset data) ?m =
      Inr (map (\<lambda>k. int16_at (arrayBuffer data) (byteOffset data + 2 * k)) [0..<?m])"
    by (rule newInt16Array_aligned[OF even view_holds_samples[OF valid]])
  have "fillChannels (map (\<lambda>k. int16_at (arrayBuffer data) (byteOffset data + 2 * k)) [0..<?m])
          c ?n 0
          \<lparr>numberOfChannels = c, frames = ?n, sampleRate = r,
           channelData = replicate c (replicate ?n 0)\<rparr> =
        \<lparr>numberOfChannels = c, frames = ?n, sampleRate = r,
         channelData = pcmChannels (arrayBuffer data) (byteOffset data) c ?n\<rparr>"
    by (rule fillChannels_closed[OF refl fit refl])
  then show ?thesis
    using pos ne by (simp add: decodeAudioData_def bytesPerSample_def alloc view Let_def)
qed

lemma decodeAudioData_silent:
  assumes "supported ctx c r" and "viewLength data div (2 * c) = 0"
  shows "decodeAudioData data ctx r c =
     Inr \<lparr>numberOfChannels = c, frames = 1, sampleRate = r,
          channelData = replicate c [0]\<rparr>"
  using assms createBuffer_supported[of ctx c r 1]
  by (simp add: decodeAudioData_def bytesPerSample_def Let_def)

lemma decodeAudioData_unsupported:
  "\<not> supported ctx c r \<Longrightarrow> decodeAudioData data ctx r c = Inl NotSupportedError"
  by (simp add: decodeAudioData_def createBuffer_unsupported Let_def)

lemma decodeAudioData_misaligned:
  assumes "supported ctx c r" and "odd (byteOffset data)"
    and "0 < viewLength data div (2 * c)"
  shows "decodeAudioData data ctx r c = Inl RangeError"
proof -
  have "viewLength data \<noteq> 0" using assms(3) by (rule div_pos_nonzero)
  then show ?thesis
    using assms createBuffer_supported[OF assms(1,3)]
    by (simp add: decodeAudioData_def bytesPerSample_def newInt16Array_odd Let_def)
qed

lemma decodeAudioData_Inr:
  assumes ret: "decodeAudioData data ctx r c = Inr b"
  shows "supported ctx c r"
    and "0 < viewLength data div (2 * c) \<Longrightarrow>
         b = \<lparr>numberOfChannels = c, frames = viewLength data div (2 * c), sampleRate = r,
              channelData = pcmChannels (arrayBuffer data) (byteOffset data) c
                              (viewLength data div (2 * c))\<rparr>"
    and "viewLength data div (2 * c) = 0 \<Longrightarrow>
         b = \<lparr>numberOfChannels = c, frames = 1, sampleRate = r,
              channelData = replicate c [0]\<rparr>"
proof -
  show sup: "supported ctx c r"
    using ret decodeAudioData_unsupported[of ctx c r data] by (cases "supported ctx c r") auto
  {
    assume z: "viewLength data div (2 * c) = 0"
    show "b = \<lparr>numberOfChannels = c, frames = 1, sampleRate = r,
              channelData = replicate c [0]\<rparr>"
      using ret decodeAudioData_silent[OF sup z] by simp
  }
  {
    assume pos: "0 < viewLength data div (2 * c)"
    let ?n = "viewLength data div (2 * c)"
    let ?m = "viewLength data div 2"
    have ne: "viewLength data \<noteq> 0" using pos by (rule div_pos_nonzero)
    note alloc = createBuffer_supported[OF sup pos]
    from ret ne pos obtain d where
      d: "newInt16Array (arrayBuffer data) (byteOffset data) ?m = Inr d"
      and b: "b = fillChannels d c ?n 0
                \<lparr>numberOfChannels = c, frames = ?n, sampleRate = r,
                 channelData = replicate c (replicate ?n 0)\<rparr>"
      by (auto simp: decodeAudioData_def bytesPerSample_def alloc Let_def split: sum.splits)
    have fit: "?n * c \<le> ?m" by (rule frames_fit_view)
    show "b = \<lparr>numberOfChannels = c, frames = ?n, sampleRate = r,
              channelData = pcmChannels (arrayBuffer data) (byteOffset data) c ?n\<rparr>"
      unfolding b by (rule fillChannels_closed[OF newInt16Array_Inr(1)[OF d] fit refl])
  }
qed

lemma pcm_sample_range:
  "- 1 \<le> real_of_int (sint (w :: int16)) / 32768 \<and> real_of_int (sint w) / 32768 \<le> 1"
proof -
  have lo: "- (2 ^ (LENGTH(16) - 1)) \<le> sint w" by (rule sint_ge)
  have hi: "sint w < 2 ^ (LENGTH(16) - 1)" by (rule sint_lt)
  from lo have "- 32768 \<le> sint w" by simp
  then have a: "- 32768 \<le> real_of_int (sint w)" by linarith
  from hi have "sint w < 32768" by simp
  then have b: "real_of_int (sint w) \<le> 32768" by linarith
  from a b show ?thesis by simp
qed

lemma pcmChannels_shape:
  "length (pcmChannels bytes off c n) = c"
  "chan \<in> set (pcmChannels bytes off c n) \<Longrightarrow> length chan = n"
  "chan \<in> set (pcmChannels bytes off c n) \<Longrightarrow> v \<in> set chan \<Longrightarrow> - 1 \<le> v \<and> v \<le> 1"
  using pcm_sample_range by (auto simp: pcmChannels_def)

lemma pcmChannels_nth:
  "ch < c \<Longrightarrow> i < n \<Longrightarrow>
   pcmChannels bytes off c n ! ch ! i =
     real_of_int (sint (int16_at bytes (off + 2 * (i * c + ch)))) / 32768"
  by (simp add: pcmChannels_def)



text \<open>
  Claim C4. Inside the two loops a sample whose interleaved index \<open>i * C + ch\<close> lies in
  the 16-bit view is the signed 16-bit value over 32768 and lies between \<open>-1\<close> and
  \<open>1\<close>; an index past the view gives the sample \<open>0\<close>. For a buffer that
  \<open>decodeAudioData\<close> returns the index always lies in the view, so every sample is the
  little-endian value read from the bytes of the view.
\<close>

theorem pcm_sample_conversion:
  "(channel < numChannels \<and> i < numFrames \<and> length (channelData buffer) = numChannels \<and>
    length (channelData buffer ! channel) = numFrames \<longrightarrow>
      (i * numChannels + channel < length dataInt16 \<longrightarrow>
         channelData (fillChannels dataInt16 numChannels numFrames 0 buffer) ! channel ! i =
           real_of_int (sint (dataInt16 ! (i * numChannels + channel))) / 32768 \<and>
         - 1 \<le> channelData (fillChannels dataInt16 numChannels numFrames 0 buffer) ! channel ! i \<and>
         channelData (fillChannels dataInt16 numChannels numFrames 0 buffer) ! channel ! i \<le> 1) \<and>
      (\<not> i * numChannels + channel < length dataInt16 \<longrightarrow>
         channelData (fillChannels dataInt16 numChannels numFrames 0 buffer) ! channel ! i = 0)) \<and>
   (channel < numChannels \<and> i < viewLength data div (2 * numChannels) \<longrightarrow>
      (supported ctx numChannels rate \<and> even (byteOffset data) \<and> validView data \<longrightarrow>
         (\<exists>decoded. decodeAudioData data ctx rate numChannels = Inr decoded)) \<and>
      (\<forall>decoded. decodeAudioData data ctx rate numChannels = Inr decoded \<longrightarrow>
         channelData decoded ! channel ! i =
           real_of_int (sint (int16_at (arrayBuffer data)
             (byteOffset data + 2 * (i * numChannels + channel)))) / 32768 \<and>
         - 1 \<le> channelData decoded ! channel ! i \<and> channelData decoded ! channel ! i \<le> 1))"
proof (intro conjI impI allI)
  assume a: "channel < numChannels \<and> i < numFrames \<and>
    length (channelData buffer) = numChannels \<and>
    length (channelData buffer ! channel) = numFrames"
  let ?v = "channelData (fillChannels dataInt16 numChannels numFrames 0 buffer) ! channel ! i"
  have row: "channelData (fillChannels dataInt16 numChannels numFrames 0 buffer) ! channel =
      fillFrames dataInt16 numChannels numFrames channel 0 (channelData buffer ! channel)"
    using a fillChannels_nth[of channel buffer dataInt16 numChannels numFrames 0] by simp
  have v: "?v = (if i * numChannels + channel < length dataInt16
      then real_of_int (sint (dataInt16 ! (i * numChannels + channel))) / 32768 else 0)"
    using a fillFrames_nth[of i "channelData buffer ! channel" dataInt16 numChannels numFrames
        channel 0]
    by (simp add: row)
  {
    assume inb: "i * numChannels + channel < length dataInt16"
    show "?v = real_of_int (sint (dataInt16 ! (i * numChannels + channel))) / 32768"
      using v inb by simp
    then show "- 1 \<le> ?v" "?v \<le> 1"
      using pcm_sample_range[of "dataInt16 ! (i * numChannels + channel)"] by simp_all
  }
  {
    assume "\<not> i * numChannels + channel < length dataInt16"
    then show "?v = 0" using v by simp
  }
next
  assume b: "channel < numChannels \<and> i < viewLength data div (2 * numChannels)"
  assume ok: "supported ctx numChannels rate \<and> even (byteOffset data) \<and> validView data"
  have "0 < viewLength data div (2 * numChannels)" using b by auto
  then show "\<exists>decoded. decodeAudioData data ctx rate numChannels = Inr decoded"
    using decodeAudioData_frames[of ctx numChannels rate data] ok by blast
next
  fix decoded
  assume b: "channel < numChannels \<and> i < viewLength data div (2 * numChannels)"
  assume ret: "decodeAudioData data ctx rate numChannels = Inr decoded"
  have pos: "0 < viewLength data div (2 * numChannels)" using b by auto
  have v: "channelData decoded ! channel ! i =
      real_of_int (sint (int16_at (arrayBuffer data)
        (byteOffset data + 2 * (i * numChannels + channel)))) / 32768"
    using decodeAudioData_Inr(2)[OF ret pos] b by (simp add: pcmChannels_nth)
  show "channelData decoded ! channel ! i =
      real_of_int (sint (int16_at (arrayBuffer data)
        (byteOffset data + 2 * (i * numChannels + channel)))) / 32768"
    by (rule v)
  show "- 1 \<le> channelData decoded ! channel ! i" "channelData decoded ! channel ! i \<le> 1"
    using pcm_sample_range[of "int16_at (arrayBuffer data)
        (byteOffset data + 2 * (i * numChannels + channel))"]
    by (simp_all add: v)
qed

text \<open>
  The theorem on a 16-bit view that holds the sample, on one that is too short for it, on
  four bytes decoded for two channels, and on the same four bytes as a view at offset 2 of
  a longer buffer.
\<close>

theorem pcm_sample_conversion_witness:
  "channelData (fillChannels [16384, 49152] 2 1 0
      \<lparr>numberOfChannels = 2, frames = 1, sampleRate = 48000, channelData = [[0], [0]]\<rparr>) ! 1 ! 0
     = - 1 / 2 \<and>
   channelData (fillChannels [16384] 2 1 0
      \<lparr>numberOfChannels = 2, frames = 1, sampleRate = 48000, channelData = [[0], [0]]\<rparr>) ! 1 ! 0
     = 0 \<and>
   (\<exists>decoded. decodeAudioData (freshArray [0, 64, 0, 192])
        \<lparr>maxChannelCount = 32, minSampleRate = 8000, maxSampleRate = 96000\<rparr> 48000 2
        = Inr decoded \<and> channelData decoded ! 1 ! 0 = - 1 / 2) \<and>
   (\<exists>decoded. decodeAudioData \<lparr>arrayBuffer = [7, 7, 0, 64, 0, 192, 7], byteOffset = 2,
          viewLength = 4\<rparr>
        \<lparr>maxChannelCount = 32, minSampleRate = 8000, maxSampleRate = 96000\<rparr> 48000 2
        = Inr decoded \<and> channelData decoded ! 1 ! 0 = - 1 / 2)"
proof -
  let ?buffer = "\<lparr>numberOfChannels = 2, frames = 1, sampleRate = 48000,
      channelData = [[0], [0 :: real]]\<rparr>"
  let ?ctx = "\<lparr>maxChannelCount = 32, minSampleRate = 8000, maxSampleRate = 96000\<rparr>"
  let ?whole = "freshArray [0, 64, 0, 192]"
  let ?part = "\<lparr>arrayBuffer = [7, 7, 0, 64, 0, 192, 7], byteOffset = 2, viewLength = 4\<rparr>"
  have sup: "supported ?ctx 2 48000" by (simp add: supported_def)
  have "channelData (fillChannels [16384, 49152] 2 1 0 ?buffer) ! 1 ! 0 = - 1 / 2"
    using pcm_sample_conversion[of 1 2 0 1 ?buffer "[16384, 49152]" ?whole ?ctx 48000] by simp
  moreover have "channelData (fillChannels [16384] 2 1 0 ?buffer) ! 1 ! 0 = 0"
    using pcm_sample_conversion[of 1 2 0 1 ?buffer "[16384]" ?whole ?ctx 48000] by simp
  moreover have "\<exists>decoded. decodeAudioData ?whole ?ctx 48000 2 = Inr decoded \<and>
      channelData decoded ! 1 ! 0 = - 1 / 2"
    using pcm_sample_conversion[of 1 2 0 1 ?buffer "[]" ?whole ?ctx 48000] sup
    by (auto simp: freshArray_def validView_def int16_at_def word_cat_eq)
  moreover have "\<exists>decoded. decodeAudioData ?part ?ctx 48000 2 = Inr decoded \<and>
      channelData decoded ! 1 ! 0 = - 1 / 2"
    using pcm_sample_conversion[of 1 2 0 1 ?buffer "[]" ?part ?ctx 48000] sup
    by (auto simp: validView_def int16_at_def word_cat_eq)
  ultimately show ?thesis by blast
qed

text \<open>
  Claim C6 as the specification states it fails: \<open>decodeAudioData\<close> raises the
  \<^verbatim>\<open>RangeError\<close> of the \<^verbatim>\<open>Int16Array\<close> constructor for a view at an odd offset of its
  buffer, and the \<^verbatim>\<open>NotSupportedError\<close> of \<^verbatim>\<open>createBuffer\<close> for a channel count or a
  rate outside the ranges of the context, here 1000 channels and the rate \<open>-5\<close>.
\<close>

theorem decodeAudioData_raises_counterexample:
  "decodeAudioData \<lparr>arrayBuffer = [7, 0, 64, 0, 192], byteOffset = 1, viewLength = 4\<rparr>
      \<lparr>maxChannelCount = 32, minSampleRate = 8000, maxSampleRate = 96000\<rparr> 48000 2
     = Inl RangeError \<and>
   decodeAudioData (freshArray [0, 64, 0, 192])
      \<lparr>maxChannelCount = 32, minSampleRate = 8000, maxSampleRate = 96000\<rparr> 48000 1000
     = Inl NotSupportedError \<and>
   decodeAudioData (freshArray [0, 64, 0, 192])
      \<lparr>maxChannelCount = 32, minSampleRate = 8000, maxSampleRate = 96000\<rparr> (- 5) 2
     = Inl NotSupportedError"
  by (simp add: decodeAudioData_def createBuffer_def newInt16Array_def bytesPerSample_def
      freshArray_def Let_def)

text \<open>
  Claim C6, amended. For every byte sequence held in a view that starts at an even offset
  of its buffer, also of a length that is no multiple of \<open>2 * C\<close>, and every sample
  rate and channel count \<open>C\<close> that the audio context supports, \<open>decodeAudioData\<close>
  raises nothing: it returns a buffer of \<open>C\<close> channels at the rate asked for, every
  channel of the buffer's frame count with samples between \<open>-1\<close> and \<open>1\<close>, and the
  bytes after the last whole frame do not matter to the result.
\<close>

theorem decodeAudioData_returns:
  assumes "supported ctx numChannels rate" and "even (byteOffset data)" and "validView data"
  shows "\<exists>buffer. decodeAudioData data ctx rate numChannels = Inr buffer \<and>
     numberOfChannels buffer = numChannels \<and> sampleRate buffer = rate \<and>
     1 \<le> frames buffer \<and> length (channelData buffer) = numChannels \<and>
     (\<forall>chan \<in> set (channelData buffer).
        length chan = frames buffer \<and> (\<forall>v \<in> set chan. - 1 \<le> v \<and> v \<le> 1)) \<and>
     decodeAudioData
       (data\<lparr>viewLength := 2 * numChannels * (viewLength data div (2 * numChannels))\<rparr>)
       ctx rate numChannels = Inr buffer"
proof (cases "0 < viewLength data div (2 * numChannels)")
  case True
  let ?n = "viewLength data div (2 * numChannels)"
  let ?cut = "data\<lparr>viewLength := 2 * numChannels * ?n\<rparr>"
  let ?buffer = "\<lparr>numberOfChannels = numChannels, frames = ?n, sampleRate = rate,
      channelData = pcmChannels (arrayBuffer data) (byteOffset data) numChannels ?n\<rparr>"
  have c: "1 \<le> numChannels" using assms(1) by (simp add: supported_def)
  have whole: "decodeAudioData data ctx rate numChannels = Inr ?buffer"
    by (rule decodeAudioData_frames[OF assms True])
  have n': "viewLength ?cut div (2 * numChannels) = ?n" using c by simp
  have pos': "0 < viewLength ?cut div (2 * numChannels)" using True n' by simp
  have ev': "even (byteOffset ?cut)" using assms(2) by simp
  have le: "2 * numChannels * ?n \<le> viewLength data" by simp
  have "byteOffset data + viewLength data \<le> length (arrayBuffer data)"
    using assms(3) by (simp add: validView_def)
  with le have "byteOffset data + 2 * numChannels * ?n \<le> length (arrayBuffer data)"
    by linarith
  then have valid': "validView ?cut" by (simp add: validView_def)
  have "decodeAudioData ?cut ctx rate numChannels =
      Inr \<lparr>numberOfChannels = numChannels, frames = viewLength ?cut div (2 * numChannels),
           sampleRate = rate,
           channelData = pcmChannels (arrayBuffer ?cut) (byteOffset ?cut) numChannels
                           (viewLength ?cut div (2 * numChannels))\<rparr>"
    by (rule decodeAudioData_frames[OF assms(1) ev' valid' pos'])
  then have cut: "decodeAudioData ?cut ctx rate numChannels = Inr ?buffer"
    by (simp only: n') simp
  have "1 \<le> frames ?buffer" using True by simp
  moreover have "\<forall>chan \<in> set (channelData ?buffer).
      length chan = frames ?buffer \<and> (\<forall>v \<in> set chan. - 1 \<le> v \<and> v \<le> 1)"
    using pcmChannels_shape(2,3) by auto
  moreover have "length (channelData ?buffer) = numChannels"
    by (simp add: pcmChannels_shape(1))
  ultimately show ?thesis using whole cut by simp
next
  case False
  then have z: "viewLength data div (2 * numChannels) = 0" by simp
  let ?cut = "data\<lparr>viewLength := 2 * numChannels * (viewLength data div (2 * numChannels))\<rparr>"
  have z': "viewLength ?cut div (2 * numChannels) = 0" using z by simp
  show ?thesis
    using decodeAudioData_silent[OF assms(1) z] decodeAudioData_silent[OF assms(1) z'] z
    by simp
qed

text \<open>
  The theorem at five bytes for two channels: the fifth byte is dropped.
\<close>

theorem decodeAudioData_returns_witness:
  "supported \<lparr>maxChannelCount = 32, minSampleRate = 8000, maxSampleRate = 96000\<rparr> 2 48000 \<and>
   even (byteOffset (freshArray [0, 64, 0, 192, 7])) \<and>
   validView (freshArray [0, 64, 0, 192, 7]) \<and>
   (\<exists>buffer. decodeAudioData (freshArray [0, 64, 0, 192, 7])
        \<lparr>maxChannelCount = 32, minSampleRate = 8000, maxSampleRate = 96000\<rparr> 48000 2
        = Inr buffer \<and>
      numberOfChannels buffer = 2 \<and> sampleRate buffer = 48000 \<and>
      decodeAudioData \<lparr>arrayBuffer = [0, 64, 0, 192, 7], byteOffset = 0, viewLength = 4\<rparr>
        \<lparr>maxChannelCount = 32, minSampleRate = 8000, maxSampleRate = 96000\<rparr> 48000 2
        = Inr buffer)"
proof -
  let ?ctx = "\<lparr>maxChannelCount = 32, minSampleRate = 8000, maxSampleRate = 96000\<rparr>"
  let ?data = "freshArray [0, 64, 0, 192, 7]"
  have h1: "supported ?ctx 2 48000" by (simp add: supported_def)
  have h2: "even (byteOffset ?data)" by (simp add: freshArray_def)
  have h3: "validView ?data" by (simp add: freshArray_def validView_def)
  show ?thesis
    using decodeAudioData_returns[OF h1 h2 h3] h1 h2 h3 by (auto simp: freshArray_def)
qed

section \<open>Properties of the byte decoder\<close>

lemma base64Encode_split:
  "base64Encode bs = map base64Char (encDigits bs) @ encPadding bs"
  by (induction bs rule: base64Encode.induct) (simp_all add: Let_def)

lemma unat_byte_less: "unat (a :: byte) < 256"
proof -
  have "unat a < 2 ^ LENGTH(8)" by (rule unsigned_less)
  then show ?thesis by simp
qed

lemma encDigits_less: "d \<in> set (encDigits bs) \<Longrightarrow> d < 64"
proof (induction bs arbitrary: d rule: encDigits.induct)
  case (1 a b c rest)
  have "unat a < 256" "unat b < 256" "unat c < 256" by (rule unat_byte_less)+
  then have "((unat a * 256 + unat b) * 256 + unat c) div 262144 < 64" by simp
  with 1 show ?case by (auto simp: Let_def)
next
  case (2 a b)
  have "unat a < 256" "unat b < 256" by (rule unat_byte_less)+
  then have "((unat a * 256 + unat b) * 4) div 4096 < 64" by simp
  with 2 show ?case by (auto simp: Let_def)
next
  case (3 a)
  have "unat a < 256" by (rule unat_byte_less)
  then have "(unat a * 16) div 64 < 64" by simp
  with 3 show ?case by (auto simp: Let_def)
next
  case 4
  then show ?case by simp
qed

lemma unat_code_unit: "n < 65536 \<Longrightarrow> unat (of_nat n :: code_unit) = n"
  by (simp add: unat_of_nat)

lemma base64Index_Char: "n < 64 \<Longrightarrow> base64Index (base64Char n) = Some n"
proof -
  assume n: "n < 64"
  consider "n < 26" | "26 \<le> n" "n < 52" | "52 \<le> n" "n < 62" | "n = 62" | "n = 63"
    using n by linarith
  then show ?thesis
  proof cases
    case 1
    then have "unat (base64Char n) = n + 65"
      using unat_code_unit[of "n + 65"] by (simp add: base64Char_def)
    with 1 show ?thesis by (simp add: base64Index_def)
  next
    case 2
    then have "unat (base64Char n) = n + 71"
      using unat_code_unit[of "n + 71"] by (simp add: base64Char_def)
    with 2 show ?thesis by (simp add: base64Index_def)
  next
    case 3
    then have "unat (base64Char n) = n - 4"
      using unat_code_unit[of "n - 4"] by (simp add: base64Char_def)
    with 3 show ?thesis by (auto simp: base64Index_def Let_def)
  next
    case 4
    then show ?thesis by (simp add: base64Index_def base64Char_def)
  next
    case 5
    then show ?thesis by (simp add: base64Index_def base64Char_def)
  qed
qed

lemma base64Char_not_pad: "n < 64 \<Longrightarrow> base64Char n \<noteq> 61"
proof
  assume "n < 64" and "base64Char n = 61"
  then have "base64Index 61 = Some n" using base64Index_Char[of n] by simp
  then show False by (simp add: base64Index_def)
qed

lemma base64Char_not_space: "n < 64 \<Longrightarrow> \<not> isAsciiWhitespace (base64Char n)"
proof
  assume "n < 64" and "isAsciiWhitespace (base64Char n)"
  then have "\<exists>c. isAsciiWhitespace c \<and> base64Index c = Some n"
    using base64Index_Char[of n] by blast
  then show False by (auto simp: base64Index_def isAsciiWhitespace_def)
qed


lemma byte_of_unat: "(of_nat (unat (a :: byte)) :: byte) = a"
  by simp

lemma byte_drop_high: "(of_nat (x * 256 + y) :: byte) = of_nat y"
  by (subst word_of_nat_eq_iff) (simp add: take_bit_eq_mod)

lemma sextet_join4:
  "((n div 262144 * 64 + n div 4096 mod 64) * 64 + n div 64 mod 64) * 64 + n mod 64 = (n::nat)"
proof -
  have a: "n div 4096 = (n div 64) div 64" by (simp add: div_mult2_eq)
  have b: "n div 262144 = ((n div 64) div 64) div 64" by (simp add: div_mult2_eq)
  show ?thesis unfolding a b by (simp only: div_mult_mod_eq)
qed

lemma sextet_join3:
  "(n div 4096 * 64 + n div 64 mod 64) * 64 + n mod 64 = (n::nat)"
proof -
  have a: "n div 4096 = (n div 64) div 64" by (simp add: div_mult2_eq)
  show ?thesis unfolding a by (simp only: div_mult_mod_eq)
qed

lemma sextet_join2: "n div 64 * 64 + n mod 64 = (n::nat)"
  by (simp only: div_mult_mod_eq)

lemma decode_encDigits: "decodeSextets (encDigits bs) = bs"
proof (induction bs rule: encDigits.induct)
  case (1 a b c rest)
  let ?n = "(unat a * 256 + unat b) * 256 + unat c"
  have la: "unat a < 256" and lb: "unat b < 256" and lc: "unat c < 256"
    by (rule unat_byte_less)+
  have hi: "?n div 65536 = unat a" using lb lc by simp
  have mid: "?n div 256 = unat a * 256 + unat b" using lc by simp
  have b1: "(of_nat (?n div 65536) :: byte) = a" by (simp only: hi byte_of_unat)
  have b2: "(of_nat (?n div 256) :: byte) = b"
    by (simp only: mid byte_drop_high byte_of_unat)
  have b3: "(of_nat ?n :: byte) = c" by (simp only: byte_drop_high byte_of_unat)
  show ?case
    using "1.IH"
    by (simp only: encDigits.simps decodeSextets.simps Let_def sextet_join4 b1 b2 b3)
next
  case (2 a b)
  let ?m = "unat a * 256 + unat b"
  have lb: "unat b < 256" by (rule unat_byte_less)
  have quarter: "(?m * 4) div 4 = ?m" by simp
  have hi: "?m div 256 = unat a" using lb by simp
  have b1: "(of_nat (?m div 256) :: byte) = a" by (simp only: hi byte_of_unat)
  have b2: "(of_nat ?m :: byte) = b" by (simp only: byte_drop_high byte_of_unat)
  show ?case
    by (simp only: encDigits.simps decodeSextets.simps Let_def sextet_join3 quarter b1 b2)
next
  case (3 a)
  have sixteenth: "(unat a * 16) div 16 = unat a" by simp
  show ?case
    by (simp only: encDigits.simps decodeSextets.simps Let_def sextet_join2 sixteenth
        byte_of_unat)
next
  case 4
  show ?case by simp
qed


lemma sextets_map_Char:
  "\<forall>d \<in> set ds. d < 64 \<Longrightarrow> sextets (map base64Char ds) = Some ds"
  by (induction ds) (simp_all add: base64Index_Char)

lemma encDigits_length: "length (encDigits bs) mod 4 \<noteq> 1"
  by (induction bs rule: encDigits.induct) (simp_all add: Let_def)

lemma base64Encode_length: "length (base64Encode bs) mod 4 = 0"
  by (induction bs rule: base64Encode.induct) (simp_all add: Let_def)

lemma encPadding_cases:
  "encPadding bs = [] \<or> encPadding bs = [61] \<or> encPadding bs = [61, 61]"
  by (induction bs rule: encPadding.induct) simp_all

lemma stripPadding_append:
  assumes "xs = [] \<or> last xs \<noteq> 61"
    and "pad = [] \<or> pad = [61] \<or> pad = [61, 61]"
  shows "stripPadding (xs @ pad) = xs"
  using assms by (auto simp: stripPadding_def butlast_append)

lemma digits_last_not_pad:
  assumes "\<forall>d \<in> set ds. d < 64"
  shows "map base64Char ds = [] \<or> last (map base64Char ds) \<noteq> 61"
proof (cases ds rule: rev_cases)
  case Nil
  then show ?thesis by simp
next
  case (snoc ys y)
  with assms have "y < 64" by simp
  then show ?thesis using snoc by (simp add: base64Char_not_pad)
qed

lemma pad_not_space: "\<not> isAsciiWhitespace 61"
  by (simp add: isAsciiWhitespace_def)

lemma base64Encode_no_space:
  "filter (\<lambda>c. \<not> isAsciiWhitespace c) (base64Encode bs) = base64Encode bs"
proof -
  have "\<forall>c \<in> set (base64Encode bs). \<not> isAsciiWhitespace c"
    using encPadding_cases[of bs]
    by (auto simp: base64Encode_split encDigits_less base64Char_not_space pad_not_space)
  then show ?thesis by simp
qed

lemma atob_base64Encode: "atob (base64Encode bs) = Inr (map ucast bs)"
proof -
  have digits: "\<forall>d \<in> set (encDigits bs). d < 64" by (simp add: encDigits_less)
  have strip: "stripPadding (base64Encode bs) = map base64Char (encDigits bs)"
    unfolding base64Encode_split
    by (rule stripPadding_append[OF digits_last_not_pad[OF digits] encPadding_cases])
  have len: "length (map base64Char (encDigits bs)) mod 4 \<noteq> 1"
    using encDigits_length[of bs] by simp
  show ?thesis
    using len
    by (simp add: atob_def base64Encode_no_space base64Encode_length strip
        sextets_map_Char[OF digits] decode_encDigits)
qed

lemma ucast_byte_code_unit: "(ucast (ucast (b :: byte) :: code_unit) :: byte) = b"
  by (rule ucast_up_ucast_id) (simp add: is_up)

lemma unat_ucast_byte: "unat (ucast (b :: byte) :: code_unit) = unat b"
proof -
  have "unat b < 2 ^ LENGTH(8)" by (rule unsigned_less)
  then have "unat b < 2 ^ 16" by simp
  then show ?thesis by (simp add: unsigned_ucast_eq take_bit_nat_eq_self)
qed

lemma btoa_bytes: "btoa (map ucast (bs :: byte list)) = Inr (base64Encode bs)"
proof -
  have "\<forall>c \<in> set (map ucast bs :: code_unit list). \<not> 255 < unat c"
  proof
    fix c :: code_unit assume "c \<in> set (map ucast bs)"
    then obtain b :: byte where "c = ucast b" by auto
    then have "unat c = unat b" by (simp add: unat_ucast_byte)
    then show "\<not> 255 < unat c" using unat_byte_less[of b] by simp
  qed
  moreover have "map ucast (map ucast bs :: code_unit list) = bs"
    by (simp add: o_def ucast_byte_code_unit)
  ultimately show ?thesis by (simp add: btoa_def)
qed

lemma sextets_None: "c \<in> set cs \<Longrightarrow> base64Index c = None \<Longrightarrow> sextets cs = None"
  by (induction cs) (auto split: option.splits)

lemma stripPadding_keeps:
  assumes "c \<in> set cs" and "c \<noteq> 61"
  shows "c \<in> set (stripPadding cs)"
proof -
  have keep: "c \<in> set (butlast xs)" if "c \<in> set xs" "last xs = 61" for xs
  proof -
    from that(1) have "xs \<noteq> []" by auto
    then have "xs = butlast xs @ [last xs]" by simp
    then have "set xs = set (butlast xs) \<union> {last xs}"
      by (metis list.simps(15) set_append empty_set)
    with that assms(2) show ?thesis by auto
  qed
  show ?thesis
    using assms keep[of cs] keep[of "butlast cs"] by (auto simp: stripPadding_def)
qed

lemma atob_invalid_character:
  assumes "c \<in> set s" and "base64Index c = None" and "\<not> isAsciiWhitespace c" and "c \<noteq> 61"
  shows "atob s = Inl InvalidCharacterError"
proof -
  let ?stripped = "filter (\<lambda>c. \<not> isAsciiWhitespace c) s"
  let ?data = "if length ?stripped mod 4 = 0 then stripPadding ?stripped else ?stripped"
  have "c \<in> set ?stripped" using assms(1,3) by simp
  then have "c \<in> set ?data" using assms(4) by (simp add: stripPadding_keeps)
  then have "sextets ?data = None" using assms(2) by (rule sextets_None)
  then show ?thesis by (simp add: atob_def Let_def)
qed

text \<open>
  Claim C5. \<open>decode\<close> never raises: it returns a byte sequence for every input. The
  result is empty for the empty string, for \<^verbatim>\<open>null\<close>, \<^verbatim>\<open>undefined\<close> and every other
  value that is no string, and for every string that \<open>atob\<close> rejects, among them
  every string with a character outside the base64 alphabet, the white space and the
  padding sign. For a string that \<open>atob\<close> accepts the result is the decoded bytes.
\<close>

theorem decode_total:
  "(\<exists>bytes. decode v = Inr bytes) \<and>
   decode (JSString []) = Inr [] \<and> decode JSNull = Inr [] \<and> decode JSUndefined = Inr [] \<and>
   ((\<forall>str. v \<noteq> JSString str) \<longrightarrow> decode v = Inr []) \<and>
   (atob s = Inl e \<longrightarrow> decode (JSString s) = Inr []) \<and>
   ((\<exists>c \<in> set s. base64Index c = None \<and> \<not> isAsciiWhitespace c \<and> c \<noteq> 61) \<longrightarrow>
      decode (JSString s) = Inr []) \<and>
   (atob s = Inr binaryString \<longrightarrow> decode (JSString s) = Inr (map ucast binaryString))"
proof (intro conjI impI)
  show "\<exists>bytes. decode v = Inr bytes"
    by (cases v) (auto simp: decode_def split: sum.splits)
  show "decode (JSString []) = Inr []" "decode JSNull = Inr []" "decode JSUndefined = Inr []"
    by (simp_all add: decode_def)
  show "decode v = Inr []" if "\<forall>str. v \<noteq> JSString str"
    using that by (cases v) (simp_all add: decode_def)
  show "decode (JSString s) = Inr []" if "atob s = Inl e"
    using that by (simp add: decode_def)
  show "decode (JSString s) = Inr []"
    if "\<exists>c \<in> set s. base64Index c = None \<and> \<not> isAsciiWhitespace c \<and> c \<noteq> 61"
    using that atob_invalid_character[of _ s] by (auto simp: decode_def)
  show "decode (JSString s) = Inr (map ucast binaryString)" if "atob s = Inr binaryString"
  proof (cases "s = []")
    case True
    with that have "binaryString = []" by (simp add: atob_def stripPadding_def)
    with True show ?thesis by (simp add: decode_def)
  next
    case False
    with that show ?thesis by (simp add: decode_def)
  qed
qed

text \<open>
  The theorem at a number, at a string of a single digit, at a string of exclamation
  marks and at the base64 text of the bytes 65, 66, 67.
\<close>

theorem decode_total_witness:
  "decode (JSNumber 3) = Inr [] \<and>
   atob [65] = Inl InvalidCharacterError \<and> decode (JSString [65]) = Inr [] \<and>
   decode (JSString [33, 33, 33, 33]) = Inr [] \<and>
   atob [81, 85, 74, 68] = Inr [65, 66, 67] \<and> decode (JSString [81, 85, 74, 68]) = Inr [65, 66, 67]"
proof -
  have a: "atob [65] = Inl InvalidCharacterError"
    by (simp add: atob_def isAsciiWhitespace_def stripPadding_def Let_def)
  have b: "atob [81, 85, 74, 68] = Inr [65, 66, 67]"
    by (simp add: atob_def isAsciiWhitespace_def stripPadding_def base64Index_def Let_def)
  have c: "\<exists>c \<in> set [33, 33, 33, 33 :: code_unit].
      base64Index c = None \<and> \<not> isAsciiWhitespace c \<and> c \<noteq> 61"
    by (simp add: base64Index_def isAsciiWhitespace_def)
  have n: "\<forall>str. JSNumber 3 \<noteq> JSString str" by simp
  have "decode (JSNumber 3) = Inr []"
    using decode_total[of "JSNumber 3" "[]"] n by blast
  moreover have "decode (JSString [65]) = Inr []"
    using decode_total[of JSNull "[65]" InvalidCharacterError] a by blast
  moreover have "decode (JSString [33, 33, 33, 33]) = Inr []"
    using decode_total[of JSNull "[33, 33, 33, 33]"] c by blast
  moreover have "decode (JSString [81, 85, 74, 68]) = Inr [65, 66, 67]"
    using decode_total[of JSNull "[81, 85, 74, 68]" _ "[65, 66, 67]"] b by simp
  ultimately show ?thesis using a b by simp
qed

text \<open>
  Claim C10. Decoding what \<open>encode\<close> produces gives the byte array back.
\<close>

theorem decode_encode_roundtrip: "\<exists>s. encode b = Inr s \<and> decode (JSString s) = Inr b"
proof -
  have e: "encode b = Inr (base64Encode b)" by (simp add: encode_def btoa_bytes)
  have "decode (JSString (base64Encode b)) = Inr b"
  proof (cases "base64Encode b = []")
    case True
    then have "b = []" by (cases b rule: base64Encode.cases) (simp_all add: Let_def)
    with True show ?thesis by (simp add: decode_def)
  next
    case False
    then show ?thesis
      by (simp add: decode_def atob_base64Encode o_def ucast_byte_code_unit)
  qed
  with e show ?thesis by simp
qed

text \<open>
  The round trip at five bytes, among them 0 and 255.
\<close>

theorem decode_encode_roundtrip_witness:
  "\<exists>s. encode [72, 105, 33, 0, 255] = Inr s \<and> decode (JSString s) = Inr [72, 105, 33, 0, 255]"
  by (rule decode_encode_roundtrip)

section \<open>Properties of the playback scheduler\<close>

lemma scheduleBuffer_effect:
  "started (scheduleBuffer now b p) =
     started p @ [\<lparr>clock = now,
        startTime = (let cur = (if nextStartTime p = 0 then now + bufferTime else nextStartTime p)
                     in if cur < now then now + 0.1 else cur),
        played = b\<rparr>] \<and>
   nextStartTime (scheduleBuffer now b p) =
     (let cur = (if nextStartTime p = 0 then now + bufferTime else nextStartTime p)
      in if cur < now then now + 0.1 else cur) + duration b"
  by (simp add: scheduleBuffer_def Let_def)

lemma scheduleBuffer_steady:
  assumes "\<not> underrun now p"
  shows "started (scheduleBuffer now b p) =
     started p @ [\<lparr>clock = now,
        startTime = (if nextStartTime p = 0 then now + bufferTime else nextStartTime p),
        played = b\<rparr>]"
    and "nextStartTime (scheduleBuffer now b p) =
     (if nextStartTime p = 0 then now + bufferTime else nextStartTime p) + duration b"
  using assms scheduleBuffer_effect[of now b p]
  by (auto simp: underrun_def firstCursor_def Let_def)

lemma scheduleAll_append:
  "scheduleAll (xs @ ys) p = scheduleAll ys (scheduleAll xs p)"
  by (induction xs arbitrary: p) auto

lemma noUnderrun_append:
  "noUnderrun (xs @ ys) p \<longleftrightarrow> noUnderrun xs p \<and> noUnderrun ys (scheduleAll xs p)"
  by (induction xs arbitrary: p) auto

lemma noUnderrun_take: "noUnderrun calls p \<Longrightarrow> noUnderrun (take k calls) p"
  using noUnderrun_append[of "take k calls" "drop k calls" p] by simp

lemma steady_run:
  assumes "0 < nextStartTime p" and "noUnderrun calls p"
    and "\<forall>c \<in> set calls. 0 < duration (snd c)"
  shows "map startTime (started (scheduleAll calls p)) =
           map startTime (started p) @ cumulative (nextStartTime p) (map (duration \<circ> snd) calls)
       \<and> map played (started (scheduleAll calls p)) = map played (started p) @ map snd calls
       \<and> nextStartTime (scheduleAll calls p) =
           nextStartTime p + sum_list (map (duration \<circ> snd) calls)"
  using assms
proof (induction calls arbitrary: p)
  case Nil
  then show ?case by simp
next
  case (Cons c calls)
  obtain now b where c: "c = (now, b)" by (cases c)
  let ?p' = "scheduleBuffer now b p"
  from Cons.prems c have nu: "\<not> underrun now p" and rest: "noUnderrun calls ?p'"
    and d: "0 < duration b" by auto
  from Cons.prems(1) have nz: "nextStartTime p \<noteq> 0" by simp
  have cur: "nextStartTime ?p' = nextStartTime p + duration b"
    and st: "started ?p' = started p @ [\<lparr>clock = now, startTime = nextStartTime p, played = b\<rparr>]"
    using scheduleBuffer_steady[OF nu, of b] nz by simp_all
  have pos: "0 < nextStartTime ?p'" using cur d Cons.prems(1) by simp
  have ds: "\<forall>c \<in> set calls. 0 < duration (snd c)" using Cons.prems(3) by simp
  from Cons.IH[OF pos rest ds] show ?case
    by (simp add: c cur st add.assoc)
qed

lemma cumulative_length: "length (cumulative t ds) = length ds"
  by (induction ds arbitrary: t) auto

lemma cumulative_nth:
  "i < length ds \<Longrightarrow> cumulative t ds ! i = t + sum_list (take i ds)"
proof (induction ds arbitrary: t i)
  case Nil
  then show ?case by simp
next
  case (Cons d ds)
  then show ?case by (cases i) (simp_all add: add.assoc)
qed


lemma first_run:
  assumes nu: "noUnderrun ((now1, b1) # rest) p" and clock: "0 \<le> now1"
    and ds: "\<forall>c \<in> set ((now1, b1) # rest). 0 < duration (snd c)"
  shows "map startTime (newStarts p (scheduleAll ((now1, b1) # rest) p)) =
           cumulative (firstCursor now1 p) (map (duration \<circ> snd) ((now1, b1) # rest))"
    and "map played (newStarts p (scheduleAll ((now1, b1) # rest) p)) =
           map snd ((now1, b1) # rest)"
    and "nextStartTime (scheduleAll ((now1, b1) # rest) p) =
           firstCursor now1 p + sum_list (map (duration \<circ> snd) ((now1, b1) # rest))"
proof -
  let ?p' = "scheduleBuffer now1 b1 p"
  let ?t0 = "firstCursor now1 p"
  from nu have nu1: "\<not> underrun now1 p" and rest: "noUnderrun rest ?p'" by auto
  have t0: "0 < ?t0"
    using nu1 clock by (auto simp: underrun_def firstCursor_def bufferTime_def)
  have cur: "nextStartTime ?p' = ?t0 + duration b1"
    and st: "started ?p' = started p @ [\<lparr>clock = now1, startTime = ?t0, played = b1\<rparr>]"
    using scheduleBuffer_steady[OF nu1, of b1] by (simp_all add: firstCursor_def)
  have pos: "0 < nextStartTime ?p'" using cur t0 ds by simp
  have ds': "\<forall>c \<in> set rest. 0 < duration (snd c)" using ds by simp
  note run = steady_run[OF pos rest ds']
  have a: "map startTime (started (scheduleAll rest ?p')) =
      map startTime (started p) @ cumulative ?t0 (map (duration \<circ> snd) ((now1, b1) # rest))"
    using run by (simp add: st cur)
  have b: "map played (started (scheduleAll rest ?p')) =
      map played (started p) @ map snd ((now1, b1) # rest)"
    using run by (simp add: st)
  show "map startTime (newStarts p (scheduleAll ((now1, b1) # rest) p)) =
           cumulative ?t0 (map (duration \<circ> snd) ((now1, b1) # rest))"
    using a by (simp add: newStarts_def drop_map[symmetric] del: cumulative.simps)
  show "map played (newStarts p (scheduleAll ((now1, b1) # rest) p)) =
           map snd ((now1, b1) # rest)"
    using b by (simp add: newStarts_def drop_map[symmetric])
  show "nextStartTime (scheduleAll ((now1, b1) # rest) p) =
           ?t0 + sum_list (map (duration \<circ> snd) ((now1, b1) # rest))"
    using run by (simp add: cur add.assoc)
qed

text \<open>
  Claim C1. Buffers of durations \<open>d1, ..., dN\<close> scheduled in order with no underrun
  are started at \<open>t0, t0 + d1, t0 + d1 + d2, ...\<close>, in the order given, where
  \<open>t0\<close> is the cursor at the first buffer (the clock plus \<open>bufferTime\<close> when the cursor
  was 0, the cursor itself otherwise); after each call the cursor is the start time of that
  call plus the duration of its buffer. The clock of the first call is not negative and
  the durations are positive, as the audio clock and the buffers of the handler are.
\<close>

theorem gapless_schedule:
  assumes nu: "noUnderrun ((now1, b1) # rest) p" and clock: "0 \<le> now1"
    and ds: "\<forall>c \<in> set ((now1, b1) # rest). 0 < duration (snd c)"
  shows "map startTime (newStarts p (scheduleAll ((now1, b1) # rest) p)) =
           cumulative (firstCursor now1 p) (map (duration \<circ> snd) ((now1, b1) # rest))
       \<and> map played (newStarts p (scheduleAll ((now1, b1) # rest) p)) =
           map snd ((now1, b1) # rest)
       \<and> (\<forall>i < length ((now1, b1) # rest).
            startTime (newStarts p (scheduleAll ((now1, b1) # rest) p) ! i) =
              firstCursor now1 p +
              sum_list (take i (map (duration \<circ> snd) ((now1, b1) # rest)))
          \<and> nextStartTime (scheduleAll (take (Suc i) ((now1, b1) # rest)) p) =
              startTime (newStarts p (scheduleAll ((now1, b1) # rest) p) ! i) +
              duration (snd (((now1, b1) # rest) ! i)))"
proof -
  let ?calls = "(now1, b1) # rest"
  let ?ds = "map (duration \<circ> snd) ?calls"
  let ?new = "newStarts p (scheduleAll ?calls p)"
  let ?t0 = "firstCursor now1 p"
  note closed = first_run[OF nu clock ds]
  have len: "length ?new = length ?calls"
    using arg_cong[OF closed(1), of length] by (simp add: cumulative_length)
  have idx: "startTime (?new ! i) = ?t0 + sum_list (take i ?ds)
      \<and> nextStartTime (scheduleAll (take (Suc i) ?calls) p) =
          startTime (?new ! i) + duration (snd (?calls ! i))"
    if i: "i < length ?calls" for i
  proof -
    have "startTime (?new ! i) = map startTime ?new ! i" using i len by simp
    also have "\<dots> = cumulative ?t0 ?ds ! i" by (simp only: closed(1))
    also have "\<dots> = ?t0 + sum_list (take i ?ds)" using i by (intro cumulative_nth) simp
    finally have s: "startTime (?new ! i) = ?t0 + sum_list (take i ?ds)" .
    have pre: "take (Suc i) ?calls = (now1, b1) # take i rest" by simp
    have nu': "noUnderrun ((now1, b1) # take i rest) p"
      using noUnderrun_take[OF nu, of "Suc i"] by simp
    have ds': "\<forall>c \<in> set ((now1, b1) # take i rest). 0 < duration (snd c)"
      using ds by (auto dest: in_set_takeD)
    have "nextStartTime (scheduleAll (take (Suc i) ?calls) p) =
        ?t0 + sum_list (map (duration \<circ> snd) (take (Suc i) ?calls))"
      unfolding pre by (rule first_run(3)[OF nu' clock ds'])
    then have n: "nextStartTime (scheduleAll (take (Suc i) ?calls) p) =
        ?t0 + sum_list (take (Suc i) ?ds)"
      by (simp only: take_map)
    have "take (Suc i) ?ds = take i ?ds @ [?ds ! i]"
      using i by (intro take_Suc_conv_app_nth) simp
    then have split: "sum_list (take (Suc i) ?ds) = sum_list (take i ?ds) + ?ds ! i"
      by (simp only: sum_list_append sum_list.Cons sum_list.Nil add_0_right)
    have el: "?ds ! i = duration (snd (?calls ! i))"
      using i by (subst nth_map) simp_all
    show ?thesis
    proof (intro conjI)
      show "startTime (?new ! i) = ?t0 + sum_list (take i ?ds)" by (rule s)
      show "nextStartTime (scheduleAll (take (Suc i) ?calls) p) =
          startTime (?new ! i) + duration (snd (?calls ! i))"
        using s n split el by linarith
    qed
  qed
  show ?thesis using closed(1,2) idx by blast
qed

text \<open>
  The theorem at two buffers of one and two seconds that arrive at clock 0 and 0.5 in a
  fresh element: they start at 1 and 2.
\<close>

theorem gapless_schedule_witness:
  "noUnderrun
     [(0, \<lparr>numberOfChannels = 1, frames = 2, sampleRate = 2, channelData = [[0, 0]]\<rparr>),
      (1 / 2, \<lparr>numberOfChannels = 1, frames = 4, sampleRate = 2, channelData = [[0, 0, 0, 0]]\<rparr>)]
     initialState \<and>
   map startTime (newStarts initialState (scheduleAll
     [(0, \<lparr>numberOfChannels = 1, frames = 2, sampleRate = 2, channelData = [[0, 0]]\<rparr>),
      (1 / 2, \<lparr>numberOfChannels = 1, frames = 4, sampleRate = 2, channelData = [[0, 0, 0, 0]]\<rparr>)]
     initialState)) = [1, 2]"
proof -
  let ?b1 = "\<lparr>numberOfChannels = 1, frames = 2, sampleRate = 2, channelData = [[0, 0]]\<rparr>"
  let ?b2 = "\<lparr>numberOfChannels = 1, frames = 4, sampleRate = 2, channelData = [[0, 0, 0, 0]]\<rparr>"
  have h1: "noUnderrun [(0, ?b1), (1 / 2, ?b2)] initialState"
    by (simp add: underrun_def firstCursor_def initialState_def scheduleBuffer_def
        bufferTime_def duration_def Let_def)
  have h2: "(0::real) \<le> 0" by simp
  have h3: "\<forall>c \<in> set [(0, ?b1), (1 / 2, ?b2)]. 0 < duration (snd c)"
    by (simp add: duration_def)
  have t: "cumulative (firstCursor 0 initialState)
      (map (duration \<circ> snd) [(0, ?b1), (1 / 2, ?b2)]) = [1, 2]"
    by (simp add: firstCursor_def initialState_def bufferTime_def duration_def)
  have "map startTime (newStarts initialState
      (scheduleAll [(0, ?b1), (1 / 2, ?b2)] initialState)) = [1, 2]"
    using gapless_schedule[OF h1 h2 h3, THEN conjunct1] t by (rule trans)
  with h1 show ?thesis by (rule conjI)
qed

lemma scheduleBuffer_underrun:
  assumes "nextStartTime p \<noteq> 0" and "nextStartTime p < now"
  shows "playbackState (scheduleBuffer now b p) = Loading"
    and "newStarts p (scheduleBuffer now b p) =
           [\<lparr>clock = now, startTime = now + 0.1, played = b\<rparr>]"
    and "nextStartTime (scheduleBuffer now b p) = now + 0.1 + duration b"
  using assms by (simp_all add: scheduleBuffer_def newStarts_def Let_def)

lemma scheduleAll_not_past:
  "\<exists>new. started (scheduleAll calls p) = started p @ new \<and>
         (\<forall>s \<in> set new. clock s \<le> startTime s)"
proof (induction calls arbitrary: p)
  case Nil
  then show ?case by simp
next
  case (Cons c calls)
  obtain now b where c: "c = (now, b)" by (cases c)
  let ?p' = "scheduleBuffer now b p"
  obtain s where s: "started ?p' = started p @ [s]" "clock s \<le> startTime s"
    using scheduleBuffer_effect[of now b p]
    by (auto simp: Let_def bufferTime_def split: if_splits)
  from Cons.IH[of ?p'] obtain new where
    new: "started (scheduleAll calls ?p') = started ?p' @ new"
      "\<forall>s \<in> set new. clock s \<le> startTime s" by blast
  have "started (scheduleAll (c # calls) p) = started p @ (s # new)"
    using s(1) new(1) by (simp add: c)
  moreover have "\<forall>x \<in> set (s # new). clock x \<le> startTime x" using s(2) new(2) by simp
  ultimately show ?case by blast
qed

lemma newStarts_not_past:
  "s \<in> set (newStarts p (scheduleAll calls p)) \<Longrightarrow> clock s \<le> startTime s"
  using scheduleAll_not_past[of calls p] by (auto simp: newStarts_def)

lemma scheduleBuffer_mono:
  assumes "0 \<le> now" and "0 \<le> duration b"
  shows "nextStartTime p \<le> nextStartTime (scheduleBuffer now b p)"
  using assms scheduleBuffer_effect[of now b p]
  by (auto simp: Let_def bufferTime_def split: if_splits)

lemma scheduleAll_mono:
  assumes "\<forall>c \<in> set calls. 0 \<le> fst c \<and> 0 \<le> duration (snd c)"
  shows "nextStartTime p \<le> nextStartTime (scheduleAll calls p)"
  using assms
proof (induction calls arbitrary: p)
  case Nil
  then show ?case by simp
next
  case (Cons c calls)
  obtain now b where c: "c = (now, b)" by (cases c)
  have "nextStartTime p \<le> nextStartTime (scheduleBuffer now b p)"
    using Cons.prems c by (intro scheduleBuffer_mono) auto
  also have "\<dots> \<le> nextStartTime (scheduleAll calls (scheduleBuffer now b p))"
    using Cons.prems by (intro Cons.IH) auto
  finally show ?case by (simp add: c)
qed

lemma scheduleAll_prefix_mono:
  assumes "\<forall>c \<in> set calls. 0 \<le> fst c \<and> 0 \<le> duration (snd c)" and "j \<le> k"
  shows "nextStartTime (scheduleAll (take j calls) p) \<le>
         nextStartTime (scheduleAll (take k calls) p)"
proof -
  have "take k calls = take j calls @ take (k - j) (drop j calls)"
    using assms(2) by (metis le_add_diff_inverse take_add)
  moreover have "\<forall>c \<in> set (take (k - j) (drop j calls)). 0 \<le> fst c \<and> 0 \<le> duration (snd c)"
    using assms(1) by (meson in_set_dropD in_set_takeD)
  ultimately show ?thesis
    using scheduleAll_mono[of "take (k - j) (drop j calls)" "scheduleAll (take j calls) p"]
    by (simp add: scheduleAll_append)
qed

text \<open>
  Claim C2. A call that meets the underrun test with a cursor that is not 0 and lies
  before the clock sets the playback state to loading, starts the buffer at the clock plus
  0.1 and leaves the cursor at that time plus the duration. No call of \<^verbatim>\<open>source.start\<close>
  gets a time before the clock of the call. While clocks and durations are not negative
  the cursor never decreases from one scheduled buffer to a later one.
\<close>

theorem underrun_recovery:
  "(nextStartTime p \<noteq> 0 \<and> nextStartTime p < now \<longrightarrow>
      playbackState (scheduleBuffer now b p) = Loading \<and>
      map startTime (newStarts p (scheduleBuffer now b p)) = [now + 0.1] \<and>
      nextStartTime (scheduleBuffer now b p) = now + 0.1 + duration b) \<and>
   (\<forall>s \<in> set (newStarts p (scheduleAll calls p)). clock s \<le> startTime s) \<and>
   ((\<forall>c \<in> set calls. 0 \<le> fst c \<and> 0 \<le> duration (snd c)) \<longrightarrow>
      (\<forall>j k. j \<le> k \<longrightarrow>
         nextStartTime (scheduleAll (take j calls) p) \<le>
         nextStartTime (scheduleAll (take k calls) p)))"
  using scheduleBuffer_underrun[of p now b] newStarts_not_past[of _ p calls]
    scheduleAll_prefix_mono[of calls _ _ p]
  by (intro conjI impI allI ballI) simp_all

text \<open>
  The theorem at a cursor of 4 met at clock 10, and at a run of two buffers whose second
  call comes late.
\<close>

theorem underrun_recovery_witness:
  "playbackState (scheduleBuffer 10
      \<lparr>numberOfChannels = 1, frames = 2, sampleRate = 2, channelData = [[0, 0]]\<rparr>
      (initialState\<lparr>playbackState := Playing, nextStartTime := 4\<rparr>)) = Loading \<and>
   nextStartTime (scheduleBuffer 10
      \<lparr>numberOfChannels = 1, frames = 2, sampleRate = 2, channelData = [[0, 0]]\<rparr>
      (initialState\<lparr>playbackState := Playing, nextStartTime := 4\<rparr>)) = 111 / 10 \<and>
   list_all (\<lambda>s. clock s \<le> startTime s) (newStarts initialState (scheduleAll
        [(0, \<lparr>numberOfChannels = 1, frames = 2, sampleRate = 2, channelData = [[0, 0]]\<rparr>),
         (10, \<lparr>numberOfChannels = 1, frames = 2, sampleRate = 2, channelData = [[0, 0]]\<rparr>)]
        initialState)) \<and>
   nextStartTime (scheduleAll (take 1
        [(0, \<lparr>numberOfChannels = 1, frames = 2, sampleRate = 2, channelData = [[0, 0]]\<rparr>),
         (10, \<lparr>numberOfChannels = 1, frames = 2, sampleRate = 2, channelData = [[0, 0]]\<rparr>)])
        initialState)
     \<le> nextStartTime (scheduleAll (take 2
        [(0, \<lparr>numberOfChannels = 1, frames = 2, sampleRate = 2, channelData = [[0, 0]]\<rparr>),
         (10, \<lparr>numberOfChannels = 1, frames = 2, sampleRate = 2, channelData = [[0, 0]]\<rparr>)])
        initialState)"
proof -
  let ?b = "\<lparr>numberOfChannels = 1, frames = 2, sampleRate = 2, channelData = [[0, 0 :: real]]\<rparr>"
  let ?p = "initialState\<lparr>playbackState := Playing, nextStartTime := 4\<rparr>"
  let ?calls = "[(0 :: real, ?b), (10, ?b)]"
  have h1: "nextStartTime ?p \<noteq> 0 \<and> nextStartTime ?p < 10" by simp
  have h2: "\<forall>c \<in> set ?calls. 0 \<le> fst c \<and> 0 \<le> duration (snd c)"
    by (simp add: duration_def)
  have h3: "(1::nat) \<le> 2" by simp
  note a = underrun_recovery[of ?p 10 ?b ?calls, THEN conjunct1]
  note b = underrun_recovery[of initialState 0 ?b ?calls, THEN conjunct2, THEN conjunct1]
  note c = underrun_recovery[of initialState 0 ?b ?calls, THEN conjunct2, THEN conjunct2]
  from a h1 have a': "playbackState (scheduleBuffer 10 ?b ?p) = Loading"
    "nextStartTime (scheduleBuffer 10 ?b ?p) = 10 + 0.1 + duration ?b" by blast+
  have "nextStartTime (scheduleBuffer 10 ?b ?p) = 111 / 10"
    using a'(2) by (simp add: duration_def)
  moreover from c h2 h3 have "nextStartTime (scheduleAll (take 1 ?calls) initialState)
     \<le> nextStartTime (scheduleAll (take 2 ?calls) initialState)" by blast
  moreover from b have "list_all (\<lambda>s. clock s \<le> startTime s)
      (newStarts initialState (scheduleAll ?calls initialState))"
    by (simp only: list_all_iff)
  ultimately show ?thesis using a'(1) by blast
qed

text \<open>
  A chunk of eight bytes that arrives while the element is loading is decoded to two
  frames for two channels and started one second after the clock.
\<close>

lemma decode_example:
  "decode (JSString [65, 69, 65, 65, 119, 65, 66, 65, 65, 77, 65, 61]) =
     Inr [0, 64, 0, 192, 0, 64, 0, 192]"
  by (simp add: decode_def atob_def isAsciiWhitespace_def stripPadding_def base64Index_def
      Let_def)

lemma handleAudioChunks_schedules:
  "map startTime (started (handleAudioChunks 5
      [Some (JSString [65, 69, 65, 65, 119, 65, 66, 65, 65, 77, 65, 61])]
      (initialState\<lparr>playbackState := Loading\<rparr>))) = [6] \<and>
   nextStartTime (handleAudioChunks 5
      [Some (JSString [65, 69, 65, 65, 119, 65, 66, 65, 65, 77, 65, 61])]
      (initialState\<lparr>playbackState := Loading\<rparr>)) = 6 + 2 / 48000"
proof -
  let ?data = "freshArray [0, 64, 0, 192, 0, 64, 0, 192]"
  let ?ctx = "\<lparr>maxChannelCount = 32, minSampleRate = 8000, maxSampleRate = 96000\<rparr>"
  have sup: "supported ?ctx 2 48000" by (simp add: supported_def)
  have ev: "even (byteOffset ?data)" by (simp add: freshArray_def)
  have valid: "validView ?data" by (simp add: validView_def freshArray_def)
  have n: "0 < viewLength ?data div (2 * 2)" by (simp add: freshArray_def)
  have d: "decodeAudioData ?data ?ctx 48000 2 =
      Inr \<lparr>numberOfChannels = 2, frames = 2, sampleRate = 48000,
           channelData = pcmChannels [0, 64, 0, 192, 0, 64, 0, 192] 0 2 2\<rparr>"
    using decodeAudioData_frames[OF sup ev valid n] by (simp add: freshArray_def)
  show ?thesis
    by (simp add: handleAudioChunks_def decode_example d initialState_def scheduleBuffer_def
        duration_def bufferTime_def Let_def)
qed

text \<open>
  A channel count that the context rejects makes \<^verbatim>\<open>createBuffer\<close> raise inside the
  \<^verbatim>\<open>try\<close> block of the handler: the \<^verbatim>\<open>catch\<close> shows a toast and nothing is scheduled.
\<close>

lemma handleAudioChunks_rejected:
  "handleAudioChunks 5
      [Some (JSString [65, 69, 65, 65, 119, 65, 66, 65, 65, 77, 65, 61])]
      (initialState\<lparr>playbackState := Loading, sessionNumChannels := 1000\<rparr>) =
   initialState\<lparr>playbackState := Loading, sessionNumChannels := 1000,
      toasts := [''Error playing audio. Playback might be affected.'']\<rparr>"
  by (simp add: handleAudioChunks_def decode_example decodeAudioData_unsupported supported_def
      initialState_def)

text \<open>
  Claim C7. A chunk that arrives while the playback state is stopped or paused changes
  nothing: no source is created or started, no timer is set, the cursor stays where it
  was and the chunk is kept nowhere.
\<close>

theorem chunks_discarded_when_stopped_or_paused:
  assumes "playbackState p = Stopped \<or> playbackState p = Paused"
  shows "handleAudioChunks now audioChunks p = p"
  using assms
  by (auto simp: handleAudioChunks_def split: list.splits option.splits js_value.splits)

text \<open>
  The theorem at the fresh element, which is stopped, and at a paused one, for the chunk
  of eight bytes that is scheduled while the element is loading.
\<close>

theorem chunks_discarded_when_stopped_or_paused_witness:
  "playbackState initialState = Stopped \<and>
   handleAudioChunks 5 [Some (JSString [65, 69, 65, 65, 119, 65, 66, 65, 65, 77, 65, 61])]
     initialState = initialState \<and>
   playbackState (initialState\<lparr>playbackState := Paused, nextStartTime := 3\<rparr>) = Paused \<and>
   nextStartTime (handleAudioChunks 5
     [Some (JSString [65, 69, 65, 65, 119, 65, 66, 65, 65, 77, 65, 61])]
     (initialState\<lparr>playbackState := Paused, nextStartTime := 3\<rparr>)) = 3"
proof -
  have h1: "playbackState initialState = Stopped \<or> playbackState initialState = Paused"
    by (simp add: initialState_def)
  have h2: "playbackState (initialState\<lparr>playbackState := Paused, nextStartTime := 3\<rparr>) = Stopped
      \<or> playbackState (initialState\<lparr>playbackState := Paused, nextStartTime := 3\<rparr>) = Paused"
    by simp
  show ?thesis
    using chunks_discarded_when_stopped_or_paused[OF h1, of 5
        "[Some (JSString [65, 69, 65, 65, 119, 65, 66, 65, 65, 77, 65, 61])]"]
      chunks_discarded_when_stopped_or_paused[OF h2, of 5
        "[Some (JSString [65, 69, 65, 65, 119, 65, 66, 65, 65, 77, 65, 61])]"]
    by (simp add: initialState_def)
qed

section \<open>Properties of \<^verbatim>\<open>stop\<close>\<close>

text \<open>
  Claim C8 as the specification states it fails: \<^verbatim>\<open>stop()\<close> does not discard the
  session handle. Here a playing element that holds session 1 still holds it afterwards.
\<close>

theorem stop_keeps_session_counterexample:
  "session (stop Returns 2
     (initialState\<lparr>playbackState := Playing, session := Some 1, contextState := Running,
        nextStartTime := 7\<rparr>)) \<noteq> None"
  by (simp add: stop_def resetAudioPipelineToStopped_def setValueAtTime_def
      linearRampToValueAtTime_def initialState_def Let_def)

text \<open>
  Claim C8, amended. From any state \<^verbatim>\<open>stop()\<close> leaves the playback state stopped and
  the cursor at 0, and does not touch the connection flag; when the call on the session
  returns, the session handle is kept as it was. With a running context and a clock that
  is not negative the gain is held at its value and ramped to 0 over 0.1 seconds; with a
  context that is not running the gain value is set to 0 at once.
\<close>

theorem stop_postcondition:
  "playbackState (stop answer now p) = Stopped \<and>
   nextStartTime (stop answer now p) = 0 \<and>
   (answer = Returns \<longrightarrow> session (stop answer now p) = session p) \<and>
   connectionError (stop answer now p) = connectionError p \<and>
   (contextState p = Running \<and> 0 \<le> now \<longrightarrow>
      gain (stop answer now p) =
        (gain p)\<lparr>events := events (gain p) @
           [SetValueAtTime (gainValue (gain p)) now, LinearRampToValueAtTime 0 (now + 0.1)]\<rparr>) \<and>
   (contextState p \<noteq> Running \<longrightarrow> gain (stop answer now p) = (gain p)\<lparr>gainValue := 0\<rparr>)"
  by (auto simp: stop_def resetAudioPipelineToStopped_def setValueAtTime_def
      linearRampToValueAtTime_def Let_def split: option.splits call_outcome.splits)

text \<open>
  The theorem at a playing element with a running context, and at the fresh element,
  whose context is suspended.
\<close>

theorem stop_postcondition_witness:
  "playbackState (stop Returns 2
     (initialState\<lparr>playbackState := Playing, session := Some 1, contextState := Running,
        nextStartTime := 7\<rparr>)) = Stopped \<and>
   nextStartTime (stop Returns 2
     (initialState\<lparr>playbackState := Playing, session := Some 1, contextState := Running,
        nextStartTime := 7\<rparr>)) = 0 \<and>
   session (stop Returns 2
     (initialState\<lparr>playbackState := Playing, session := Some 1, contextState := Running,
        nextStartTime := 7\<rparr>)) = Some 1 \<and>
   gain (stop Returns 2
     (initialState\<lparr>playbackState := Playing, session := Some 1, contextState := Running,
        nextStartTime := 7\<rparr>)) =
     \<lparr>gainValue = 1, events = [SetValueAtTime 1 2, LinearRampToValueAtTime 0 (21 / 10)]\<rparr> \<and>
   gain (stop (Throws ''session is closed'') 2 initialState) = \<lparr>gainValue = 0, events = []\<rparr>"
proof -
  let ?p = "initialState\<lparr>playbackState := Playing, session := Some 1, contextState := Running,
        nextStartTime := 7\<rparr>"
  have h1: "contextState ?p = Running \<and> (0::real) \<le> 2" by simp
  have h2: "contextState initialState \<noteq> Running" by (simp add: initialState_def)
  show ?thesis
    using stop_postcondition[of Returns 2 ?p]
      stop_postcondition[of "Throws ''session is closed''" 2 initialState] h1 h2
    by (simp add: initialState_def)
qed

section \<open>Properties of \<^verbatim>\<open>getInitialPrompts\<close>\<close>

lemma storedPromptsMap_present:
  "storedPromptsMap arr pid = Some s \<Longrightarrow>
     s \<in> set arr \<and> storedId s = pid \<and> pid \<noteq> BPM_PROMPT_ID"
proof -
  have fold: "foldl (\<lambda>m p. m(storedId p \<mapsto> p)) Map.empty xs k = Some s \<Longrightarrow>
      s \<in> set xs \<and> storedId s = k" for xs k
    by (induction xs rule: rev_induct) (auto split: if_splits)
  assume "storedPromptsMap arr pid = Some s"
  then show ?thesis using fold[of arr pid] by (auto simp: storedPromptsMap_def split: if_splits)
qed

lemma storedPromptsMap_stored:
  assumes "s \<in> set arr" and "storedId s \<noteq> BPM_PROMPT_ID"
  shows "\<exists>s'. storedPromptsMap arr (storedId s) = Some s'"
proof -
  have fold: "s \<in> set xs \<Longrightarrow>
      \<exists>s'. foldl (\<lambda>m p. m(storedId p \<mapsto> p)) Map.empty xs (storedId s) = Some s'" for xs
    by (induction xs rule: rev_induct) auto
  show ?thesis using assms fold[of arr] by (simp add: storedPromptsMap_def)
qed

lemma getInitialPrompts_lookup:
  "map_of (getInitialPrompts (PromptArray arr) defaults) pid =
     (case map_of defaults pid of
        None \<Rightarrow> None
      | Some d \<Rightarrow> (case storedPromptsMap arr pid of
                     Some s \<Rightarrow> Some (mergePrompt d s) | None \<Rightarrow> Some d))"
  by (induction defaults) (auto simp: getInitialPrompts_def split: option.splits)

text \<open>
  Claim C9 as the specification states it fails: the source kind of a merged prompt is
  taken from the stored record too, not from the default. Here the default is a knob and
  the stored record a button.
\<close>

theorem stored_source_type_counterexample:
  "map_option sourceType
     (map_of (getInitialPrompts
        (PromptArray [\<lparr>storedId = ''prompt-0'', storedText = Some ''Acid'', storedWeight = Some 1,
           storedCc = Some 0, storedColor = Some ''#000000'', storedCategoryKey = Some None,
           storedSourceType = Some Button\<rparr>])
        [(''prompt-0'', \<lparr>promptId = ''prompt-0'', promptText = ''Bossa Nova'', weight = 0,
           cc = 0, color = ''#FF00FF'', categoryKey = None, sourceType = Knob\<rparr>)])
      ''prompt-0'')
   \<noteq> map_option sourceType
     (map_of [(''prompt-0'', \<lparr>promptId = ''prompt-0'', promptText = ''Bossa Nova'', weight = 0,
           cc = 0, color = ''#FF00FF'', categoryKey = None, sourceType = Knob\<rparr>)]
      ''prompt-0'')"
  by (simp add: getInitialPrompts_def storedPromptsMap_def mergePrompt_def BPM_PROMPT_ID_def)

text \<open>
  Claim C9, amended. For a prompt id held by the defaults and by the stored map, the merged
  prompt takes text, weight, cc and category from the stored record where the record
  defines them, and the source kind from the stored record where it is set; the colour
  and the id are those of the default.
\<close>

theorem stored_prompt_merge:
  assumes "map_of defaultPromptsMap pid = Some d"
    and "storedPromptsMap storedPromptsArray pid = Some s"
  shows "\<exists>m. map_of (getInitialPrompts (PromptArray storedPromptsArray) defaultPromptsMap) pid
            = Some m \<and>
     promptText m = (case storedText s of Some t \<Rightarrow> t | None \<Rightarrow> promptText d) \<and>
     weight m = (case storedWeight s of Some w \<Rightarrow> w | None \<Rightarrow> weight d) \<and>
     cc m = (case storedCc s of Some n \<Rightarrow> n | None \<Rightarrow> cc d) \<and>
     categoryKey m = (case storedCategoryKey s of Some k \<Rightarrow> k | None \<Rightarrow> categoryKey d) \<and>
     sourceType m = (case storedSourceType s of Some t \<Rightarrow> t | None \<Rightarrow> sourceType d) \<and>
     color m = color d \<and> promptId m = promptId d"
  using assms by (simp add: getInitialPrompts_lookup mergePrompt_def)

text \<open>
  The theorem at a stored record without a weight.
\<close>

theorem stored_prompt_merge_witness:
  "\<exists>m. map_of (getInitialPrompts
        (PromptArray [\<lparr>storedId = ''prompt-0'', storedText = Some ''Acid'', storedWeight = None,
           storedCc = Some 5, storedColor = Some ''#000000'', storedCategoryKey = Some None,
           storedSourceType = Some Button\<rparr>])
        [(''prompt-0'', \<lparr>promptId = ''prompt-0'', promptText = ''Bossa Nova'', weight = 0,
           cc = 0, color = ''#FF00FF'', categoryKey = Some ''Genre'', sourceType = Knob\<rparr>)])
      ''prompt-0'' = Some m \<and>
     promptText m = ''Acid'' \<and> weight m = 0 \<and> cc m = 5 \<and> categoryKey m = None \<and>
     sourceType m = Button \<and> color m = ''#FF00FF'' \<and> promptId m = ''prompt-0''"
proof -
  let ?s = "\<lparr>storedId = ''prompt-0'', storedText = Some ''Acid'', storedWeight = None,
           storedCc = Some 5, storedColor = Some ''#000000'', storedCategoryKey = Some None,
           storedSourceType = Some Button\<rparr>"
  let ?d = "\<lparr>promptId = ''prompt-0'', promptText = ''Bossa Nova'', weight = 0,
           cc = 0, color = ''#FF00FF'', categoryKey = Some ''Genre'', sourceType = Knob\<rparr>"
  have h1: "map_of [(''prompt-0'', ?d)] ''prompt-0'' = Some ?d" by simp
  have h2: "storedPromptsMap [?s] ''prompt-0'' = Some ?s"
    by (simp add: storedPromptsMap_def BPM_PROMPT_ID_def)
  show ?thesis using stored_prompt_merge[OF h1 h2] by simp
qed

end
